theory Spec2Isabelle
  imports Main "HOL-Library.Multiset" "HOL-Library.Sublist"
begin

section \<open>JavaScript values, Map and Set\<close>

text \<open>
  The scanner is JavaScript (detector.js: the global checker, lines 1 to 307, followed by
  the deep scanner).  The values that the code stores as Map keys, the package names and
  versions read from feeds and manifests, are modelled by the primitive values of
  JavaScript; \<open>JNum\<close> holds the integer-valued numbers.  A property that is absent reads as
  \<open>JUndefined\<close>.  On these values the key comparison of a Map (SameValueZero) is
  equality.  A name or version field that holds an object or an array, which a Map
  compares by reference, is outside the model.  Strings are HOL strings: sequences of code
  units below 256.
\<close>

datatype jsval = JUndefined | JNull | JBool bool | JNum int | JStr string

fun truthy :: "jsval \<Rightarrow> bool" where
  "truthy JUndefined = False"
| "truthy JNull = False"
| "truthy (JBool b) = b"
| "truthy (JNum n) = (n \<noteq> 0)"
| "truthy (JStr s) = (s \<noteq> [])"

text \<open>\<^verbatim>\<open>a || b\<close>\<close>

definition js_or :: "jsval \<Rightarrow> jsval \<Rightarrow> jsval" where
  "js_or a b = (if truthy a then a else b)"

text \<open>
  A \<^verbatim>\<open>Map\<close> is an association list in insertion order with one pair per key:
  \<^verbatim>\<open>has\<close>, \<^verbatim>\<open>get\<close> and \<^verbatim>\<open>set\<close> (which keeps the position of a key that is present and appends
  a new one).
\<close>

definition map_has :: "('k \<times> 'v) list \<Rightarrow> 'k \<Rightarrow> bool" where
  "map_has m k = (map_of m k \<noteq> None)"

definition map_get :: "('k \<times> 'v) list \<Rightarrow> 'k \<Rightarrow> 'v option" where
  "map_get m k = map_of m k"

fun map_set :: "('k \<times> 'v) list \<Rightarrow> 'k \<Rightarrow> 'v \<Rightarrow> ('k \<times> 'v) list" where
  "map_set [] k v = [(k, v)]"
| "map_set ((k', v') # m) k v = (if k' = k then (k, v) # m else (k', v') # map_set m k v)"

text \<open>\<^verbatim>\<open>if (!m.has(k)) m.set(k, d)\<close>\<close>

definition ensure :: "('k \<times> 'v) list \<Rightarrow> 'k \<Rightarrow> 'v \<Rightarrow> ('k \<times> 'v) list" where
  "ensure m k d = (if \<not> map_has m k then map_set m k d else m)"

text \<open>
  \<^verbatim>\<open>m.get(k)\<close> returns a reference and the code mutates the object behind it; the model
  rewrites the value stored under \<open>k\<close> in place.
\<close>

definition modify :: "('k \<times> 'v) list \<Rightarrow> 'k \<Rightarrow> ('v \<Rightarrow> 'v) \<Rightarrow> ('k \<times> 'v) list" where
  "modify m k f = map (\<lambda>(k', v). if k' = k then (k', f v) else (k', v)) m"

text \<open>A \<^verbatim>\<open>Set\<close> is a list without repetition in insertion order; \<^verbatim>\<open>s.add(x)\<close>:\<close>

definition set_add :: "'a list \<Rightarrow> 'a \<Rightarrow> 'a list" where
  "set_add s x = (if x \<in> set s then s else s @ [x])"

text \<open>Reading the property \<open>k\<close> of an object given by its fields.\<close>

definition getProp :: "(string \<times> jsval) list \<Rightarrow> string \<Rightarrow> jsval" where
  "getProp obj k = (case map_of obj k of Some v \<Rightarrow> v | None \<Rightarrow> JUndefined)"


section \<open>Strings\<close>

definition startsWith :: "string \<Rightarrow> string \<Rightarrow> bool" where
  "startsWith s p = (take (length p) s = p)"

text \<open>
  The white space that \<^verbatim>\<open>trim\<close> removes, among the code units below 256: TAB, LF, VT, FF,
  CR, SPACE and NBSP.  The line terminators, which \<^verbatim>\<open>.\<close> of a regular expression does
  not match: LF and CR.
\<close>

definition is_ws :: "char \<Rightarrow> bool" where
  "is_ws c = (c = CHR 0x09 \<or> c = CHR 0x0A \<or> c = CHR 0x0B \<or> c = CHR 0x0C \<or> c = CHR 0x0D
              \<or> c = CHR 0x20 \<or> c = CHR 0xA0)"

definition is_line_terminator :: "char \<Rightarrow> bool" where
  "is_line_terminator c = (c = CHR 0x0A \<or> c = CHR 0x0D)"

definition trim :: "string \<Rightarrow> string" where
  "trim s = rev (dropWhile is_ws (rev (dropWhile is_ws s)))"

text \<open>\<^verbatim>\<open>s.split(sep)\<close> for a separator of one character: always at least one piece.\<close>

fun split_on :: "char \<Rightarrow> string \<Rightarrow> string list" where
  "split_on sep [] = [[]]"
| "split_on sep (c # cs) =
     (if c = sep then [] # split_on sep cs
      else (case split_on sep cs of p # ps \<Rightarrow> (c # p) # ps | [] \<Rightarrow> [[c]]))"

text \<open>
  \<^verbatim>\<open>line.match(/^([^:@]+)[:@](.+)$/)\<close>: the first group is the longest prefix without
  \<^verbatim>\<open>:\<close> and \<^verbatim>\<open>@\<close> (a shorter one is followed by a character that is no separator), it is
  not empty, a separator follows, and the second group is the whole rest, not empty and
  without line terminator.
\<close>

definition is_sep :: "char \<Rightarrow> bool" where
  "is_sep c = (c = CHR '':'' \<or> c = CHR ''@'')"

definition match_line :: "string \<Rightarrow> (string \<times> string) option" where
  "match_line line =
     (let name = takeWhile (\<lambda>c. \<not> is_sep c) line;
          rest = dropWhile (\<lambda>c. \<not> is_sep c) line
      in if name = [] then None
         else (case rest of
                 [] \<Rightarrow> None
               | sep # version \<Rightarrow>
                   if version = [] \<or> list_ex is_line_terminator version then None
                   else Some (name, version)))"


section \<open>The registry and the feed normalizer (parseCompromisedList of the deep scanner)\<close>

text \<open>\<^verbatim>\<open>{ versions: new Map(), sources: new Set() }\<close>\<close>

record entry =
  versions :: "(jsval \<times> string list) list"
  sources :: "string list"

type_synonym registry = "(jsval \<times> entry) list"

text \<open>
  The eight lines that every branch of \<^verbatim>\<open>parseCompromisedList\<close> repeats: create the entry
  of \<open>name\<close> if there is none, create the source set of \<open>version\<close> if there is none, add the
  feed's name to that set and to the entry's sources.
\<close>

definition add_record :: "registry \<Rightarrow> jsval \<Rightarrow> jsval \<Rightarrow> string \<Rightarrow> registry" where
  "add_record compromised name version sourceName =
     modify (ensure compromised name \<lparr>versions = [], sources = []\<rparr>) name
       (\<lambda>pkg. \<lparr>versions = modify (ensure (versions pkg) version []) version
                                (\<lambda>s. set_add s sourceName),
               sources = set_add (sources pkg) sourceName\<rparr>)"

text \<open>The callback of \<^verbatim>\<open>lines.forEach\<close> (detector.js, lines 374 to 413).\<close>

definition parse_text_line :: "string \<Rightarrow> string \<Rightarrow> registry \<Rightarrow> registry" where
  "parse_text_line sourceName line0 compromised =
     (let line = trim line0 in
      if line = [] \<or> startsWith line ''#'' \<or> startsWith line ''|'' then compromised
      else if CHR ''|'' \<in> set line then
        (let parts = filter (\<lambda>p. p \<noteq> []) (map trim (split_on (CHR ''|'') line)) in
         if length parts \<ge> 2 \<and> parts ! 0 \<noteq> [] \<and> parts ! 1 \<noteq> [] then
           (let name = parts ! 0; version = parts ! 1 in
            if name \<noteq> ''Package'' \<and> version \<noteq> ''Version''
            then add_record compromised (JStr name) (JStr version) sourceName
            else compromised)
         else compromised)
      else
        (case match_line line of
           Some (name, version) \<Rightarrow>
             add_record compromised (JStr (trim name)) (JStr (trim version)) sourceName
         | None \<Rightarrow> compromised))"

text \<open>
  An element of a feed's array: \<^verbatim>\<open>null\<close>, on which a property read throws, or any other
  value, given by its fields with primitive values (none for a number or a string).
\<close>

datatype jrec = RecNull | RecObj "(string \<times> jsval) list"

text \<open>
  The value \<^verbatim>\<open>parsed\<close> that \<^verbatim>\<open>fetchAllCompromisedPackages\<close> hands to the normalizer: a
  string (the text of the feed when \<^verbatim>\<open>JSON.parse\<close> threw, or the string that it returned),
  \<^verbatim>\<open>null\<close>, an object whose field \<^verbatim>\<open>packages\<close> is an array, an array, or any other value.
\<close>

datatype feed = FeedText string | FeedNull | FeedPackages "jrec list" | FeedArray "jrec list"
  | FeedOther

datatype js_error = TypeError

fun forEach_records ::
  "((string \<times> jsval) list \<Rightarrow> jsval) \<Rightarrow> string \<Rightarrow> jrec list \<Rightarrow> registry \<Rightarrow> js_error + registry"
where
  "forEach_records nameOf sourceName [] compromised = Inr compromised"
| "forEach_records nameOf sourceName (RecNull # rest) compromised = Inl TypeError"
| "forEach_records nameOf sourceName (RecObj pkg # rest) compromised =
     forEach_records nameOf sourceName rest
       (add_record compromised (nameOf pkg) (getProp pkg ''version'') sourceName)"

fun parseCompromisedList :: "feed \<Rightarrow> string \<Rightarrow> js_error + registry" where
  "parseCompromisedList (FeedText data) sourceName =
     Inr (fold (parse_text_line sourceName) (split_on (CHR 0x0A) data) [])"
| "parseCompromisedList FeedNull sourceName = Inl TypeError"
| "parseCompromisedList (FeedPackages packages) sourceName =
     forEach_records (\<lambda>pkg. js_or (getProp pkg ''name'') (getProp pkg ''package''))
       sourceName packages []"
| "parseCompromisedList (FeedArray data) sourceName =
     forEach_records (\<lambda>pkg. js_or (getProp pkg ''package'') (getProp pkg ''name''))
       sourceName data []"
| "parseCompromisedList FeedOther sourceName = Inr []"


section \<open>The registry merger (fetchAllCompromisedPackages)\<close>

text \<open>The loop over \<^verbatim>\<open>sources\<close> of one version (lines 480 to 483).\<close>

definition merge_sources :: "jsval \<Rightarrow> string list \<Rightarrow> entry \<Rightarrow> entry" where
  "merge_sources version srcs existing =
     fold (\<lambda>src ex. \<lparr>versions = modify (versions ex) version (\<lambda>s. set_add s src),
                     sources = set_add (sources ex) src\<rparr>) srcs existing"

text \<open>The loop over \<^verbatim>\<open>pkgData.versions\<close> (lines 476 to 484).\<close>

definition merge_versions :: "(jsval \<times> string list) list \<Rightarrow> entry \<Rightarrow> entry" where
  "merge_versions vs existing =
     fold (\<lambda>(version, srcs) ex.
             merge_sources version srcs (ex\<lparr>versions := ensure (versions ex) version []\<rparr>))
          vs existing"

text \<open>The body of the loop over \<^verbatim>\<open>sourceCompromised\<close> (lines 471 to 484).\<close>

definition merge_entry :: "jsval \<Rightarrow> entry \<Rightarrow> registry \<Rightarrow> registry" where
  "merge_entry name pkgData allCompromised =
     modify (ensure allCompromised name \<lparr>versions = [], sources = []\<rparr>) name
       (merge_versions (versions pkgData))"

text \<open>The merge step: the loop over \<^verbatim>\<open>sourceCompromised\<close> (lines 470 to 485).\<close>

definition merge_registry :: "registry \<Rightarrow> registry \<Rightarrow> registry" where
  "merge_registry sourceCompromised allCompromised =
     fold (\<lambda>(name, pkgData) acc. merge_entry name pkgData acc)
          sourceCompromised allCompromised"

text \<open>
  One turn of the loop over \<^verbatim>\<open>COMPROMISED_SOURCES\<close>.  The network and \<^verbatim>\<open>JSON.parse\<close> are
  outside the model: a source is its name with what they gave, \<open>FetchFailed\<close> when
  \<^verbatim>\<open>fetchUrl\<close> threw, and otherwise the text \<open>data\<close> with the value that \<^verbatim>\<open>JSON.parse(data)\<close>
  returned, \<open>None\<close> when it threw.  The inner \<^verbatim>\<open>catch\<close> then takes the text itself as
  \<^verbatim>\<open>parsed\<close> (lines 460 to 465).  Whatever is thrown later inside the outer \<^verbatim>\<open>try\<close> is caught
  and the loop goes on; the normalizer has finished before the merge starts, so a feed
  that throws has merged nothing.
\<close>

datatype fetched = FetchFailed | Fetched string "feed option"

definition parsed_value :: "string \<Rightarrow> feed option \<Rightarrow> feed" where
  "parsed_value data json = (case json of Some v \<Rightarrow> v | None \<Rightarrow> FeedText data)"

definition fetch_step :: "string \<times> fetched \<Rightarrow> registry \<Rightarrow> registry" where
  "fetch_step = (\<lambda>(sourceName, res) allCompromised.
     (case res of
        FetchFailed \<Rightarrow> allCompromised
      | Fetched data json \<Rightarrow>
          (case parseCompromisedList (parsed_value data json) sourceName of
             Inl err \<Rightarrow> allCompromised
           | Inr sourceCompromised \<Rightarrow> merge_registry sourceCompromised allCompromised)))"

definition fetchAllCompromisedPackages :: "(string \<times> fetched) list \<Rightarrow> registry" where
  "fetchAllCompromisedPackages srcs = fold fetch_step srcs []"


section \<open>The simple array format of the global checker (parseCompromisedList, lines 166 to 176)\<close>

record listed =
  l_name :: jsval
  l_version :: jsval
  severity :: string
  source :: string

text \<open>
  The third branch of the global checker's \<^verbatim>\<open>parseCompromisedList\<close>, for a document whose
  field \<^verbatim>\<open>compromisedPackages\<close> is an array of strings; its other two branches are not
  modelled.  \<^verbatim>\<open>const [name, version] = pkgStr.split('@')\<close>:
\<close>

definition split_name_version :: "string \<Rightarrow> jsval \<times> jsval" where
  "split_name_version pkgStr =
     (case split_on (CHR ''@'') pkgStr of
        [] \<Rightarrow> (JUndefined, JUndefined)
      | [name] \<Rightarrow> (JStr name, JUndefined)
      | name # version # _ \<Rightarrow> (JStr name, JStr version))"

definition parse_simple_list :: "string list \<Rightarrow> (string \<times> listed) list" where
  "parse_simple_list compromisedPackages =
     fold (\<lambda>pkgStr compromised.
             (case split_name_version pkgStr of
                (name, version) \<Rightarrow>
                  map_set compromised pkgStr
                    \<lparr>l_name = name, l_version = version, severity = ''high'', source = ''list''\<rparr>))
          compromisedPackages []"


section \<open>The installation enumerator (getAllInstalledPackages)\<close>

text \<open>
  What \<^verbatim>\<open>JSON.parse(fs.readFileSync(packageJsonPath, 'utf8'))\<close> does with a file: it
  throws, it returns \<^verbatim>\<open>null\<close> (and reading \<^verbatim>\<open>pkg.version\<close> throws), or it returns a value
  given by its fields.  A directory lists its entries in the order of \<^verbatim>\<open>readdirSync\<close>;
  \<open>Locked\<close> is a directory that can be neither listed nor searched.  \<open>Link target\<close> is a
  symbolic link: \<^verbatim>\<open>existsSync\<close>, \<^verbatim>\<open>readdirSync\<close> and \<^verbatim>\<open>readFileSync\<close> follow it (\<open>resolve\<close>),
  while the \<^verbatim>\<open>Dirent\<close> that \<^verbatim>\<open>readdirSync\<close> returns for it describes the link itself, which is
  no directory.  The target of a link is a part of the tree: a link that leads back to a
  directory above it is outside the model, and a link whose target is missing behaves at
  every place as a file that does not parse.
\<close>

datatype manifest = Unparsable | ManifestNull | ManifestObj "(string \<times> jsval) list"

datatype node = File manifest | Locked | Dir "(string \<times> node) list" | Link node

fun resolve :: "node \<Rightarrow> node" where
  "resolve (Link target) = resolve target"
| "resolve (File m) = File m"
| "resolve Locked = Locked"
| "resolve (Dir entries) = Dir entries"

text \<open>\<^verbatim>\<open>entry.isDirectory()\<close> of the \<^verbatim>\<open>Dirent\<close> of a node.\<close>

fun isDirectory :: "node \<Rightarrow> bool" where
  "isDirectory (File m) = False"
| "isDirectory Locked = True"
| "isDirectory (Dir entries) = True"
| "isDirectory (Link target) = False"

record installed =
  version :: jsval
  path :: string

type_synonym scanned = "(string \<times> installed) list"

text \<open>
  \<^verbatim>\<open>path.join\<close> belongs to the library of Node and is a parameter of the model: \<open>join dir name\<close>
  is the value of \<^verbatim>\<open>path.join(dir, name)\<close>, whatever the platform and the normalization it
  applies.  The name of a scoped package is built by the code itself, with a slash.

  The function takes the path and what the file system holds there (\<open>None\<close>: nothing
  exists at the path).  \<open>scanEntries\<close> is the loop over \<^verbatim>\<open>entries\<close>, \<open>scanScoped\<close> the loop
  over \<^verbatim>\<open>scopedPackages\<close>, and \<open>scanPackage\<close> the statement
  \<^verbatim>\<open>if (fs.existsSync(packageJsonPath) && !scanned.has(packageName)) { try ... }\<close> that both
  branches share.  \<^verbatim>\<open>readdirSync\<close> throws on a file and on a locked directory; thrown in
  the loop, on a scope directory, it ends the loop: the outer \<^verbatim>\<open>catch\<close> prints a warning and
  \<open>scanned\<close> is returned as it is by then.
\<close>

function getAllInstalledPackages ::
    "(string \<Rightarrow> string \<Rightarrow> string) \<Rightarrow> string \<Rightarrow> node option \<Rightarrow> scanned \<Rightarrow> scanned"
  and scanEntries ::
    "(string \<Rightarrow> string \<Rightarrow> string) \<Rightarrow> string \<Rightarrow> (string \<times> node) list \<Rightarrow> scanned \<Rightarrow> scanned"
  and scanScoped ::
    "(string \<Rightarrow> string \<Rightarrow> string) \<Rightarrow> string \<Rightarrow> string \<Rightarrow> (string \<times> node) list \<Rightarrow> scanned
       \<Rightarrow> scanned"
  and scanPackage ::
    "(string \<Rightarrow> string \<Rightarrow> string) \<Rightarrow> string \<Rightarrow> string \<Rightarrow> node \<Rightarrow> scanned \<Rightarrow> scanned"
where
  "getAllInstalledPackages join nodeModulesPath None scanned = scanned"
| "getAllInstalledPackages join nodeModulesPath (Some nd) scanned =
     (case resolve nd of
        Dir entries \<Rightarrow> scanEntries join nodeModulesPath entries scanned
      | _ \<Rightarrow> scanned)"
| "scanEntries join nodeModulesPath [] scanned = scanned"
| "scanEntries join nodeModulesPath ((ename, child) # entries) scanned =
     (if \<not> isDirectory child then scanEntries join nodeModulesPath entries scanned
      else if startsWith ename ''@'' then
        (case child of
           Dir scopedPackages \<Rightarrow>
             scanEntries join nodeModulesPath entries
               (scanScoped join ename (join nodeModulesPath ename) scopedPackages scanned)
         | _ \<Rightarrow> scanned)
      else scanEntries join nodeModulesPath entries
             (scanPackage join ename (join nodeModulesPath ename) child scanned))"
| "scanScoped join scopeName scopePath [] scanned = scanned"
| "scanScoped join scopeName scopePath ((sname, child) # scopedPackages) scanned =
     (if \<not> isDirectory child then scanScoped join scopeName scopePath scopedPackages scanned
      else scanScoped join scopeName scopePath scopedPackages
             (scanPackage join (scopeName @ ''/'' @ sname) (join scopePath sname) child scanned))"
| "scanPackage join packageName packagePath (File m) scanned = scanned"
| "scanPackage join packageName packagePath Locked scanned = scanned"
| "scanPackage join packageName packagePath (Link target) scanned = scanned"
| "scanPackage join packageName packagePath (Dir files) scanned =
     (if map_of files ''package.json'' \<noteq> None \<and> \<not> map_has scanned packageName then
        (case map_of files ''package.json'' of
           Some packageJson \<Rightarrow>
             (case resolve packageJson of
                File (ManifestObj pkg) \<Rightarrow>
                  (let scanned' = map_set scanned packageName
                         \<lparr>version = getProp pkg ''version'', path = packagePath\<rparr>
                   in case map_of files ''node_modules'' of
                        Some nested \<Rightarrow>
                          getAllInstalledPackages join (join packagePath ''node_modules'')
                            (Some nested) scanned'
                      | None \<Rightarrow> scanned')
              | _ \<Rightarrow> scanned)
         | None \<Rightarrow> scanned)
      else scanned)"
  by pat_completeness auto
termination
proof -
  have sz: "map_of fs k = Some n \<Longrightarrow> size n < size_list (size_prod (\<lambda>_. 0) size) fs"
    for fs :: "(string \<times> node) list" and k n
    by (induction fs) (auto split: if_splits)
  have rs: "size (resolve n) \<le> size n" for n
    by (induction n rule: resolve.induct) simp_all
  have rd: "resolve n = Dir es \<Longrightarrow> size_list (size_prod (\<lambda>_. 0) size) es < size n" for n es
    using rs [of n] by simp
  show ?thesis
    by (relation "measure (\<lambda>x. case x of
           Inl (Inl (j, p, n, s)) \<Rightarrow> (case n of None \<Rightarrow> 0 | Some nd \<Rightarrow> 2 * size nd + 1)
         | Inl (Inr (j, p, es, s)) \<Rightarrow> 2 * size_list (size_prod (\<lambda>_. 0) size) es
         | Inr (Inl (j, sn, sp, es, s)) \<Rightarrow> 2 * size_list (size_prod (\<lambda>_. 0) size) es
         | Inr (Inr (j, pn, pp, nd, s)) \<Rightarrow> 2 * size nd + 2)")
       (auto dest: sz rd)
qed

text \<open>
  The examples are written with the paths that \<^verbatim>\<open>path.join\<close> returns on a POSIX system for
  a relative directory without \<^verbatim>\<open>.\<close> and \<^verbatim>\<open>..\<close> segments and a plain entry name.
\<close>

definition slash_join :: "string \<Rightarrow> string \<Rightarrow> string" where
  "slash_join dir name = dir @ ''/'' @ name"


section \<open>The classifier (scanAllPackages)\<close>

record compromised_hit =
  c_name :: string
  c_installedVersion :: jsval
  c_compromisedVersions :: "jsval list"
  c_sources :: "string list"
  c_allSources :: "string list"
  c_path :: string

record suspicious_hit =
  s_name :: string
  s_installedVersion :: jsval
  s_compromisedVersions :: "jsval list"
  s_sources :: "string list"
  s_path :: string

record results =
  compromised :: "compromised_hit list"
  suspicious :: "suspicious_hit list"
  safe :: nat
  totalScanned :: nat

text \<open>The body of the loop over \<^verbatim>\<open>allPackages\<close> (lines 595 to 625).\<close>

definition classify :: "registry \<Rightarrow> string \<times> installed \<Rightarrow> results \<Rightarrow> results" where
  "classify compromisedList = (\<lambda>(name, info) results.
     (case map_get compromisedList (JStr name) of
        Some compromisedData \<Rightarrow>
          (let allVersions = map fst (versions compromisedData) in
           case map_get (versions compromisedData) (version info) of
             Some srcs \<Rightarrow>
               results\<lparr>compromised := compromised results @
                 [\<lparr>c_name = name, c_installedVersion = version info,
                   c_compromisedVersions = allVersions, c_sources = srcs,
                   c_allSources = sources compromisedData, c_path = path info\<rparr>]\<rparr>
           | None \<Rightarrow>
               results\<lparr>suspicious := suspicious results @
                 [\<lparr>s_name = name, s_installedVersion = version info,
                   s_compromisedVersions = allVersions,
                   s_sources = sources compromisedData, s_path = path info\<rparr>]\<rparr>)
      | None \<Rightarrow> results\<lparr>safe := safe results + 1\<rparr>))"

text \<open>
  \<open>root\<close> is what the file system holds at \<open>projectRoot\<close>; \<open>installedPackages\<close> is the
  value of \<^verbatim>\<open>allPackages\<close>.
\<close>

definition installedPackages :: "(string \<Rightarrow> string \<Rightarrow> string) \<Rightarrow> node \<Rightarrow> string \<Rightarrow> scanned" where
  "installedPackages join root projectRoot =
     getAllInstalledPackages join (join projectRoot ''node_modules'')
       (case resolve root of Dir files \<Rightarrow> map_of files ''node_modules'' | _ \<Rightarrow> None) []"

definition scanAllPackages ::
  "(string \<Rightarrow> string \<Rightarrow> string) \<Rightarrow> node \<Rightarrow> string \<Rightarrow> registry \<Rightarrow> results" where
  "scanAllPackages join root projectRoot compromisedList =
     (let allPackages = installedPackages join root projectRoot
      in fold (classify compromisedList) allPackages
           \<lparr>compromised = [], suspicious = [], safe = 0, totalScanned = length allPackages\<rparr>)"


section \<open>Reading a registry\<close>

text \<open>
  What a registry says, whatever the order in which its Maps and Sets were filled: the
  identifiers it lists, the known-bad versions of an identifier, the sources that reported
  a version, and the sources of an identifier's entry.
\<close>

definition reg_names :: "registry \<Rightarrow> jsval set" where
  "reg_names r = set (map fst r)"

definition entry_versions :: "entry \<Rightarrow> jsval set" where
  "entry_versions e = set (map fst (versions e))"

definition entry_version_sources :: "entry \<Rightarrow> jsval \<Rightarrow> string set" where
  "entry_version_sources e v = (case map_of (versions e) v of None \<Rightarrow> {} | Some s \<Rightarrow> set s)"

definition reg_versions :: "registry \<Rightarrow> jsval \<Rightarrow> jsval set" where
  "reg_versions r n = (case map_of r n of None \<Rightarrow> {} | Some e \<Rightarrow> entry_versions e)"

definition reg_version_sources :: "registry \<Rightarrow> jsval \<Rightarrow> jsval \<Rightarrow> string set" where
  "reg_version_sources r n v =
     (case map_of r n of None \<Rightarrow> {} | Some e \<Rightarrow> entry_version_sources e v)"

definition reg_sources :: "registry \<Rightarrow> jsval \<Rightarrow> string set" where
  "reg_sources r n = (case map_of r n of None \<Rightarrow> {} | Some e \<Rightarrow> set (sources e))"

text \<open>
  The partial registries that the loop of \<^verbatim>\<open>fetchAllCompromisedPackages\<close> merges: those of
  the sources that were fetched and normalized without an exception.
\<close>

definition partial_registries :: "(string \<times> fetched) list \<Rightarrow> registry list" where
  "partial_registries srcs =
     List.map_filter (\<lambda>(sourceName, res).
        (case res of
           FetchFailed \<Rightarrow> None
         | Fetched data json \<Rightarrow>
             (case parseCompromisedList (parsed_value data json) sourceName of
                Inl err \<Rightarrow> None
              | Inr sourceCompromised \<Rightarrow> Some sourceCompromised))) srcs"


section \<open>The statements of the specification about text\<close>

text \<open>
  The identifier parser in the words of the specification, for comparison with
  \<open>match_line\<close> and \<open>split_name_version\<close>: split on the last \<^verbatim>\<open>@\<close> that is not the leading
  namespace marker; fail when there is no separator after the optional namespace prefix.
  The result is the namespace (if any), the name and the version.
\<close>

datatype ident_error = MalformedIdentifier

definition claimed_identifier :: "string \<Rightarrow> ident_error + (string option \<times> string \<times> string)" where
  "claimed_identifier s =
     (let scoped = startsWith s ''@'';
          body = (if scoped then drop 1 s else s)
      in if CHR ''@'' \<notin> set body then Inl MalformedIdentifier
         else
           (let ver = rev (takeWhile (\<lambda>c. c \<noteq> CHR ''@'') (rev body));
                full = rev (drop 1 (dropWhile (\<lambda>c. c \<noteq> CHR ''@'') (rev body)))
            in if scoped
               then Inr (Some (CHR ''@'' # takeWhile (\<lambda>c. c \<noteq> CHR ''/'') full),
                         drop 1 (dropWhile (\<lambda>c. c \<noteq> CHR ''/'') full), ver)
               else Inr (None, full, ver)))"

text \<open>The cells of a table row: split on \<^verbatim>\<open>|\<close>, trim each cell, drop the empty cells.\<close>

definition cells :: "string \<Rightarrow> string list" where
  "cells line = filter (\<lambda>c. c \<noteq> []) (map trim (split_on (CHR ''|'') line))"

text \<open>
  The record of a trimmed line in the words of the specification: a line that is not
  blank and no comment is a table row if it contains a pipe, its first two cells are name
  and version, and a header row whose first cell reads \<open>Package\<close> is skipped; a line without
  pipe is matched against the pattern.
\<close>

definition claimed_line_record :: "string \<Rightarrow> (string \<times> string) option" where
  "claimed_line_record line =
     (if line = [] \<or> startsWith line ''#'' then None
      else if CHR ''|'' \<in> set line then
        (case cells line of
           nm # ver # _ \<Rightarrow> if nm = ''Package'' then None else Some (nm, ver)
         | _ \<Rightarrow> None)
      else map_option (\<lambda>(nm, ver). (trim nm, trim ver)) (match_line line))"

text \<open>
  The record of a trimmed line as amended: a line that starts with a pipe is skipped as
  well, and so is a row whose second cell reads \<open>Version\<close>.
\<close>

definition line_record :: "string \<Rightarrow> (string \<times> string) option" where
  "line_record line =
     (if line = [] \<or> startsWith line ''#'' \<or> startsWith line ''|'' then None
      else if CHR ''|'' \<in> set line then
        (case cells line of
           nm # ver # _ \<Rightarrow>
             if nm = ''Package'' \<or> ver = ''Version'' then None else Some (nm, ver)
         | _ \<Rightarrow> None)
      else map_option (\<lambda>(nm, ver). (trim nm, trim ver)) (match_line line))"

definition text_records :: "string \<Rightarrow> (string \<times> string) list" where
  "text_records data = List.map_filter (\<lambda>line. line_record (trim line)) (split_on (CHR 0x0A) data)"

text \<open>
  A line that cannot hold a record, told by its characters alone: after trimming it is
  blank, starts with \<^verbatim>\<open>#\<close> or with \<^verbatim>\<open>|\<close>, or contains none of \<^verbatim>\<open>|\<close>, \<^verbatim>\<open>:\<close> and \<^verbatim>\<open>@\<close>.
\<close>

definition inert_line :: "string \<Rightarrow> bool" where
  "inert_line line =
     (trim line = [] \<or> startsWith (trim line) ''#'' \<or> startsWith (trim line) ''|''
      \<or> list_all (\<lambda>c. c \<noteq> CHR ''|'' \<and> \<not> is_sep c) (trim line))"

text \<open>
  A feed in none of the recognized shapes: text of which every line is inert (the empty
  text is one), \<^verbatim>\<open>null\<close>, or a value that is neither an array nor an object with an array
  under \<^verbatim>\<open>packages\<close>.
\<close>

fun unrecognized :: "feed \<Rightarrow> bool" where
  "unrecognized (FeedText data) = list_all inert_line (split_on (CHR 0x0A) data)"
| "unrecognized FeedNull = True"
| "unrecognized (FeedPackages packages) = False"
| "unrecognized (FeedArray data) = False"
| "unrecognized FeedOther = True"


section \<open>The statements of the specification about the walk\<close>

text \<open>
  The package directories of a tree, as a forest: an occurrence is the name of a package,
  its record (the version of its manifest and its install path) and the occurrences in its
  own \<^verbatim>\<open>node_modules\<close>.  \<open>packages_in\<close> lists the occurrences of a \<^verbatim>\<open>node_modules\<close> directory
  in directory order: the directories with a manifest that parses to a value other than
  \<^verbatim>\<open>null\<close>, directly in it or in a scope directory; the listing of a directory ends at a
  scope directory that cannot be read.
\<close>

datatype occ = Occ string installed "occ list"

function packages_in ::
    "(string \<Rightarrow> string \<Rightarrow> string) \<Rightarrow> string \<Rightarrow> node option \<Rightarrow> occ list"
  and entries_in ::
    "(string \<Rightarrow> string \<Rightarrow> string) \<Rightarrow> string \<Rightarrow> (string \<times> node) list \<Rightarrow> occ list"
  and scoped_in ::
    "(string \<Rightarrow> string \<Rightarrow> string) \<Rightarrow> string \<Rightarrow> string \<Rightarrow> (string \<times> node) list \<Rightarrow> occ list"
  and package_in ::
    "(string \<Rightarrow> string \<Rightarrow> string) \<Rightarrow> string \<Rightarrow> string \<Rightarrow> node \<Rightarrow> occ list"
where
  "packages_in join dir None = []"
| "packages_in join dir (Some nd) =
     (case resolve nd of Dir entries \<Rightarrow> entries_in join dir entries | _ \<Rightarrow> [])"
| "entries_in join dir [] = []"
| "entries_in join dir ((ename, child) # entries) =
     (if \<not> isDirectory child then entries_in join dir entries
      else if startsWith ename ''@'' then
        (case child of
           Dir members \<Rightarrow> scoped_in join ename (join dir ename) members @ entries_in join dir entries
         | _ \<Rightarrow> [])
      else package_in join ename (join dir ename) child @ entries_in join dir entries)"
| "scoped_in join scope dir [] = []"
| "scoped_in join scope dir ((sname, child) # members) =
     (if \<not> isDirectory child then scoped_in join scope dir members
      else package_in join (scope @ ''/'' @ sname) (join dir sname) child
             @ scoped_in join scope dir members)"
| "package_in join pname dir (File m) = []"
| "package_in join pname dir Locked = []"
| "package_in join pname dir (Link target) = []"
| "package_in join pname dir (Dir files) =
     (case map_of files ''package.json'' of
        Some packageJson \<Rightarrow>
          (case resolve packageJson of
             File (ManifestObj pkg) \<Rightarrow>
               [Occ pname \<lparr>version = getProp pkg ''version'', path = dir\<rparr>
                  (case map_of files ''node_modules'' of
                     Some nested \<Rightarrow> packages_in join (join dir ''node_modules'') (Some nested)
                   | None \<Rightarrow> [])]
           | _ \<Rightarrow> [])
      | None \<Rightarrow> [])"
  by pat_completeness auto
termination
proof -
  have sz: "map_of fs k = Some n \<Longrightarrow> size n < size_list (size_prod (\<lambda>_. 0) size) fs"
    for fs :: "(string \<times> node) list" and k n
    by (induction fs) (auto split: if_splits)
  have rs: "size (resolve n) \<le> size n" for n
    by (induction n rule: resolve.induct) simp_all
  have rd: "resolve n = Dir es \<Longrightarrow> size_list (size_prod (\<lambda>_. 0) size) es < size n" for n es
    using rs [of n] by simp
  show ?thesis
    by (relation "measure (\<lambda>x. case x of
           Inl (Inl (j, p, n)) \<Rightarrow> (case n of None \<Rightarrow> 0 | Some nd \<Rightarrow> 2 * size nd + 1)
         | Inl (Inr (j, p, es)) \<Rightarrow> 2 * size_list (size_prod (\<lambda>_. 0) size) es
         | Inr (Inl (j, sn, sp, es)) \<Rightarrow> 2 * size_list (size_prod (\<lambda>_. 0) size) es
         | Inr (Inr (j, pn, pp, nd)) \<Rightarrow> 2 * size nd + 2)")
       (auto dest: sz rd)
qed

text \<open>All occurrences of a forest in depth-first order: a package before the packages below it.\<close>

fun preorder :: "occ list \<Rightarrow> (string \<times> installed) list" where
  "preorder [] = []"
| "preorder (Occ k i below # rest) = (k, i) # preorder below @ preorder rest"

text \<open>
  The statement as amended.  \<open>first_wins seen forest\<close> goes through the forest depth-first
  with the names recorded so far: an occurrence whose name is recorded is passed over
  together with everything below it; any other occurrence is recorded, then the
  occurrences below it are visited, then its later siblings.
\<close>

function first_wins :: "string list \<Rightarrow> occ list \<Rightarrow> (string \<times> installed) list" where
  "first_wins seen [] = []"
| "first_wins seen (Occ k i below # rest) =
     (if k \<in> set seen then first_wins seen rest
      else (let kept = first_wins (seen @ [k]) below
            in (k, i) # kept @ first_wins (seen @ [k] @ map fst kept) rest))"
  by pat_completeness auto
termination
  by (relation "measure (\<lambda>(seen, forest). size_list size forest)") auto

text \<open>
  The same in two steps.  \<open>reached seen forest\<close> are the occurrences that the walk comes to,
  in its order: every occurrence of the top level, and those below an occurrence whose name
  was new when the walk came to it.  \<open>first_per_name\<close> keeps of a sequence of records the
  first one under each name that is not yet recorded.
\<close>

function reached :: "string list \<Rightarrow> occ list \<Rightarrow> (string \<times> installed) list" where
  "reached seen [] = []"
| "reached seen (Occ k i below # rest) =
     (if k \<in> set seen then (k, i) # reached seen rest
      else (let r = reached (seen @ [k]) below
            in (k, i) # r @ reached (seen @ [k] @ map fst r) rest))"
  by pat_completeness auto
termination
  by (relation "measure (\<lambda>(seen, forest). size_list size forest)") auto

fun first_per_name :: "string list \<Rightarrow> (string \<times> installed) list \<Rightarrow> (string \<times> installed) list" where
  "first_per_name seen [] = []"
| "first_per_name seen ((k, i) # rest) =
     (if k \<in> set seen then first_per_name seen rest
      else (k, i) # first_per_name (seen @ [k]) rest)"


section \<open>Example data\<close>

text \<open>
  A project whose \<^verbatim>\<open>node_modules\<close> holds \<open>foo\<close> at version 1.0.0, and inside it a private
  copy of \<open>foo\<close> at version 0.9.0.
\<close>

definition package_json :: "string \<Rightarrow> string \<times> node" where
  "package_json v = (''package.json'', File (ManifestObj [(''version'', JStr v)]))"

definition nested_foo_project :: node where
  "nested_foo_project =
     Dir [(''node_modules'',
       Dir [(''foo'', Dir [package_json ''1.0.0'',
              (''node_modules'', Dir [(''foo'', Dir [package_json ''0.9.0''])])])])]"

text \<open>
  A project with \<open>foo\<close> at 1.0.0, \<open>bar\<close> at 2.0.0 and \<open>baz\<close> at 3.0.0, and a registry that
  lists \<open>foo\<close> at 1.0.0 and \<open>bar\<close> at 1.0.0, both from \<open>feedX\<close>.
\<close>

definition three_package_project :: node where
  "three_package_project =
     Dir [(''node_modules'',
       Dir [(''foo'', Dir [package_json ''1.0.0'']),
            (''bar'', Dir [package_json ''2.0.0'']),
            (''baz'', Dir [package_json ''3.0.0''])])]"

definition foo_entry :: entry where
  "foo_entry = \<lparr>versions = [(JStr ''1.0.0'', [''feedX''])], sources = [''feedX'']\<rparr>"

definition foo_bar_registry :: registry where
  "foo_bar_registry = [(JStr ''foo'', foo_entry), (JStr ''bar'', foo_entry)]"

text \<open>
  A text feed of five lines: a comment, a table row, a table row that starts with a pipe,
  a header row, and a line for the pattern.
\<close>

definition sample_text_feed :: string where
  "sample_text_feed =
     ''# list'' @ [CHR 0x0A] @ ''bar | 2.0.0 | note'' @ [CHR 0x0A] @ ''| foo | 1.0.0 |''
       @ [CHR 0x0A] @ ''Package | Version'' @ [CHR 0x0A] @ '' baz : 3.0 ''"

text \<open>The partial registry of a feed that reports \<open>pkgA\<close> at 1.0.0 and nothing else.\<close>

definition pkgA_from :: "string \<Rightarrow> registry" where
  "pkgA_from feedName =
     [(JStr ''pkgA'', \<lparr>versions = [(JStr ''1.0.0'', [feedName])], sources = [feedName]\<rparr>)]"

text \<open>
  A project where \<open>foo\<close> has a manifest without version, next to \<open>baz\<close> at 3.0.0.
\<close>

definition versionless_project :: node where
  "versionless_project =
     Dir [(''node_modules'',
       Dir [(''foo'', Dir [(''package.json'', File (ManifestObj [(''name'', JStr ''foo'')]))]),
            (''baz'', Dir [package_json ''3.0.0''])])]"


text \<open>
  A project where \<open>@scope/foo\<close> has a manifest without version, next to \<open>baz\<close> at 3.0.0.
\<close>

definition scoped_versionless_project :: node where
  "scoped_versionless_project =
     Dir [(''node_modules'',
       Dir [(''@scope'',
              Dir [(''foo'', Dir [(''package.json'', File (ManifestObj [(''name'', JStr ''foo'')]))])]),
            (''baz'', Dir [package_json ''3.0.0''])])]"

text \<open>
  A project with \<open>a\<close> at 1.0.0, which holds a private \<open>b\<close> at 1.0.0, and after it \<open>b\<close> at
  2.0.0 at the top level.
\<close>

definition nested_b_project :: node where
  "nested_b_project =
     Dir [(''node_modules'',
       Dir [(''a'', Dir [package_json ''1.0.0'',
              (''node_modules'', Dir [(''b'', Dir [package_json ''1.0.0''])])]),
            (''b'', Dir [package_json ''2.0.0''])])]"

text \<open>
  A project with \<open>a\<close> at 1.0.0, then \<open>b\<close> at 1.0.0, which holds a private \<open>a\<close> at 2.0.0 that
  in turn holds \<open>c\<close> at 1.0.0, and last \<open>c\<close> at 2.0.0 at the top level.
\<close>

definition hidden_c_modules :: node where
  "hidden_c_modules =
     Dir [(''a'', Dir [package_json ''1.0.0'']),
          (''b'', Dir [package_json ''1.0.0'',
            (''node_modules'',
               Dir [(''a'', Dir [package_json ''2.0.0'',
                      (''node_modules'', Dir [(''c'', Dir [package_json ''1.0.0''])])])])]),
          (''c'', Dir [package_json ''2.0.0''])]"

definition hidden_c_project :: node where
  "hidden_c_project = Dir [(''node_modules'', hidden_c_modules)]"

text \<open>
  Two projects where a package directory with a manifest without version is out of the
  reach of the walk: \<open>foo\<close> comes after a scope directory that cannot be read, and \<open>bar\<close>
  lies below a package whose manifest does not parse.
\<close>

definition locked_scope_project :: node where
  "locked_scope_project =
     Dir [(''node_modules'',
       Dir [(''@scope'', Locked),
            (''foo'', Dir [(''package.json'', File (ManifestObj [(''name'', JStr ''foo'')]))])])]"

definition broken_parent_project :: node where
  "broken_parent_project =
     Dir [(''node_modules'',
       Dir [(''foo'', Dir [(''package.json'', File Unparsable),
              (''node_modules'',
                 Dir [(''bar'',
                   Dir [(''package.json'', File (ManifestObj [(''name'', JStr ''bar'')]))])])])])]"

text \<open>
  A project whose \<^verbatim>\<open>node_modules\<close> is a link to a directory with \<open>foo\<close>, whose manifest is a
  link to a file, and \<open>bar\<close>, a link to a package directory.
\<close>

definition linked_project :: node where
  "linked_project =
     Dir [(''node_modules'',
       Link (Dir [(''foo'', Dir [(''package.json'',
                           Link (File (ManifestObj [(''version'', JStr ''1.0.0'')])))]),
                  (''bar'', Link (Dir [package_json ''2.0.0'']))]))]"

text \<open>
  A document that \<^verbatim>\<open>JSON.parse\<close> rejects, for the comma before the closing bracket.
\<close>

definition malformed_json_feed :: string where
  \<open>malformed_json_feed = ''{"packages": [{"name": "foo"},]}''\<close>


section \<open>Properties of the enumerator\<close>

lemma map_set_fresh: "\<not> map_has m k \<Longrightarrow> map_set m k v = m @ [(k, v)]"
  by (induction m) (auto simp: map_has_def)

lemma map_has_keys: "map_has m k \<longleftrightarrow> k \<in> fst ` set m"
  by (simp add: map_has_def map_of_eq_None_iff)

text \<open>
  Every property of the accumulator that survives appending a record under a name that
  is not yet there survives the walk.
\<close>

lemma walk_invariant:
  assumes step: "\<And>sc k v. I sc \<Longrightarrow> \<not> map_has sc k \<Longrightarrow> I (sc @ [(k, v)])"
  shows "I scanned \<Longrightarrow> I (getAllInstalledPackages join nodeModulesPath nd scanned)"
    and "I scanned \<Longrightarrow> I (scanEntries join nodeModulesPath entries scanned)"
    and "I scanned \<Longrightarrow> I (scanScoped join scopeName scopePath scopedPackages scanned)"
    and "I scanned \<Longrightarrow> I (scanPackage join packageName packagePath child scanned)"
proof (induction join nodeModulesPath nd scanned and join nodeModulesPath entries scanned
         and join scopeName scopePath scopedPackages scanned
         and join packageName packagePath child scanned
         rule: getAllInstalledPackages_scanEntries_scanScoped_scanPackage.induct)
  case (2 join nodeModulesPath nd scanned)
  then show ?case
    by (auto split: node.splits)
next
  case (4 join nodeModulesPath ename child entries scanned)
  then show ?case
    by (auto split: node.splits)
next
  case (10 join packageName packagePath files scanned)
  then show ?case
    by (auto simp: map_set_fresh Let_def step split: option.splits node.splits manifest.splits)
qed simp_all

lemma walk_prefix:
  "prefix scanned (getAllInstalledPackages join nodeModulesPath nd scanned)"
  "prefix scanned (scanEntries join nodeModulesPath entries scanned)"
  "prefix scanned (scanScoped join scopeName scopePath scopedPackages scanned)"
  "prefix scanned (scanPackage join packageName packagePath child scanned)"
  by (rule walk_invariant [where I = "prefix scanned"]; simp)+

lemma walk_distinct:
  assumes "distinct (map fst scanned)"
  shows "distinct (map fst (getAllInstalledPackages join nodeModulesPath nd scanned))"
    and "distinct (map fst (scanEntries join nodeModulesPath entries scanned))"
    and "distinct (map fst (scanScoped join scopeName scopePath scopedPackages scanned))"
    and "distinct (map fst (scanPackage join packageName packagePath child scanned))"
  using assms
  by - (rule walk_invariant [where I = "\<lambda>s. distinct (map fst s)"];
        simp add: map_has_def map_of_eq_None_iff)+

lemma prefix_map_of: "prefix xs ys \<Longrightarrow> map_of xs k = Some v \<Longrightarrow> map_of ys k = Some v"
  by (auto simp: prefix_def)

lemma scanPackage_present:
  "map_has scanned packageName \<Longrightarrow> scanPackage join packageName packagePath child scanned = scanned"
  by (cases child) simp_all

text \<open>
  A package directory whose manifest parses to a value other than \<^verbatim>\<open>null\<close> and whose name is
  new is recorded next, and the record stays as it is, whatever the rest of the walk finds.
\<close>

lemma scanPackage_records:
  assumes "map_of files ''package.json'' = Some packageJson"
      and "resolve packageJson = File (ManifestObj pkg)"
      and "\<not> map_has scanned packageName"
  shows "prefix (scanned @ [(packageName, \<lparr>version = getProp pkg ''version'', path = packagePath\<rparr>)])
           (scanPackage join packageName packagePath (Dir files) scanned)"
proof (cases "map_of files ''node_modules''")
  case None
  then show ?thesis
    using assms by (simp add: map_set_fresh)
next
  case (Some nested)
  then show ?thesis
    using assms
    by (simp add: map_set_fresh walk_prefix(1) del: getAllInstalledPackages.simps)
qed

lemma recorded_stays:
  assumes "prefix (scanned @ [(k, v)]) later" and "\<not> map_has scanned k" and "prefix later final"
  shows "map_of final k = Some v"
proof -
  have "prefix (scanned @ [(k, v)]) final"
    using assms(1,3) by (rule prefix_order.trans)
  moreover have "map_of (scanned @ [(k, v)]) k = Some v"
    using assms(2) by (simp add: map_has_def map_add_def)
  ultimately show ?thesis
    by (rule prefix_map_of)
qed

lemma scanPackage_recorded:
  assumes "map_of files ''package.json'' = Some packageJson"
      and "resolve packageJson = File (ManifestObj pkg)"
      and "\<not> map_has scanned packageName"
      and "prefix (scanPackage join packageName packagePath (Dir files) scanned) final"
  shows "map_of final packageName
           = Some \<lparr>version = getProp pkg ''version'', path = packagePath\<rparr>"
  using scanPackage_records [OF assms(1,2,3)] assms(3,4) by (rule recorded_stays)

lemma nested_foo_installed:
  "installedPackages slash_join nested_foo_project ''root''
     = [(''foo'', \<lparr>version = JStr ''1.0.0'', path = ''root/node_modules/foo''\<rparr>)]"
  by (simp add: installedPackages_def nested_foo_project_def package_json_def slash_join_def
        startsWith_def map_has_def getProp_def)

lemma three_package_installed:
  "installedPackages slash_join three_package_project ''root''
     = [(''foo'', \<lparr>version = JStr ''1.0.0'', path = ''root/node_modules/foo''\<rparr>),
        (''bar'', \<lparr>version = JStr ''2.0.0'', path = ''root/node_modules/bar''\<rparr>),
        (''baz'', \<lparr>version = JStr ''3.0.0'', path = ''root/node_modules/baz''\<rparr>)]"
  by (simp add: installedPackages_def three_package_project_def package_json_def slash_join_def
        startsWith_def map_has_def getProp_def)

lemma versionless_installed:
  "installedPackages slash_join versionless_project ''root''
     = [(''foo'', \<lparr>version = JUndefined, path = ''root/node_modules/foo''\<rparr>),
        (''baz'', \<lparr>version = JStr ''3.0.0'', path = ''root/node_modules/baz''\<rparr>)]"
  by (simp add: installedPackages_def versionless_project_def package_json_def slash_join_def
        startsWith_def map_has_def getProp_def)

lemma scoped_versionless_installed:
  "installedPackages slash_join scoped_versionless_project ''root''
     = [(''@scope/foo'', \<lparr>version = JUndefined, path = ''root/node_modules/@scope/foo''\<rparr>),
        (''baz'', \<lparr>version = JStr ''3.0.0'', path = ''root/node_modules/baz''\<rparr>)]"
  by (simp add: installedPackages_def scoped_versionless_project_def package_json_def
        slash_join_def startsWith_def map_has_def getProp_def)

lemma nested_b_installed:
  "installedPackages slash_join nested_b_project ''root''
     = [(''a'', \<lparr>version = JStr ''1.0.0'', path = ''root/node_modules/a''\<rparr>),
        (''b'', \<lparr>version = JStr ''1.0.0'', path = ''root/node_modules/a/node_modules/b''\<rparr>)]"
  by (simp add: installedPackages_def nested_b_project_def package_json_def slash_join_def
        startsWith_def map_has_def getProp_def)

lemma hidden_c_installed:
  "installedPackages slash_join hidden_c_project ''root''
     = [(''a'', \<lparr>version = JStr ''1.0.0'', path = ''root/node_modules/a''\<rparr>),
        (''b'', \<lparr>version = JStr ''1.0.0'', path = ''root/node_modules/b''\<rparr>),
        (''c'', \<lparr>version = JStr ''2.0.0'', path = ''root/node_modules/c''\<rparr>)]"
  by (simp add: installedPackages_def hidden_c_project_def hidden_c_modules_def package_json_def
        slash_join_def startsWith_def map_has_def getProp_def)

lemma hidden_c_preorder:
  "preorder (packages_in slash_join ''root/node_modules'' (Some hidden_c_modules))
     = [(''a'', \<lparr>version = JStr ''1.0.0'', path = ''root/node_modules/a''\<rparr>),
        (''b'', \<lparr>version = JStr ''1.0.0'', path = ''root/node_modules/b''\<rparr>),
        (''a'', \<lparr>version = JStr ''2.0.0'', path = ''root/node_modules/b/node_modules/a''\<rparr>),
        (''c'', \<lparr>version = JStr ''1.0.0'',
                 path = ''root/node_modules/b/node_modules/a/node_modules/c''\<rparr>),
        (''c'', \<lparr>version = JStr ''2.0.0'', path = ''root/node_modules/c''\<rparr>)]"
  by (simp add: hidden_c_modules_def package_json_def slash_join_def startsWith_def getProp_def)

text \<open>
  A package directory that the walk does not come to is not recorded: the listing of
  \<^verbatim>\<open>node_modules\<close> ends at the scope directory that cannot be read, and the
  \<^verbatim>\<open>node_modules\<close> of a package whose manifest does not parse is not entered.
\<close>

lemma unreached_not_recorded:
  "installedPackages slash_join locked_scope_project ''root'' = []"
  "installedPackages slash_join broken_parent_project ''root'' = []"
  by (simp_all add: installedPackages_def locked_scope_project_def broken_parent_project_def
        startsWith_def map_has_def)

text \<open>
  A linked \<^verbatim>\<open>node_modules\<close> and a linked manifest are read; a linked package directory is
  passed over.
\<close>

lemma linked_installed:
  "installedPackages slash_join linked_project ''root''
     = [(''foo'', \<lparr>version = JStr ''1.0.0'', path = ''root/node_modules/foo''\<rparr>)]"
  by (simp add: installedPackages_def linked_project_def package_json_def slash_join_def
        startsWith_def map_has_def getProp_def)


section \<open>The walk and the forest of package directories\<close>

lemma first_wins_append:
  "first_wins seen (xs @ ys)
     = first_wins seen xs @ first_wins (seen @ map fst (first_wins seen xs)) ys"
proof (induction xs arbitrary: seen)
  case Nil
  then show ?case by simp
next
  case (Cons x xs)
  obtain k i below where x: "x = Occ k i below" by (cases x)
  show ?case
    by (simp add: x Cons.IH Let_def)
qed

text \<open>
  The walk appends to its accumulator what \<open>first_wins\<close> keeps of the forest, given the names
  of the accumulator.
\<close>

lemma walk_first_wins:
  "getAllInstalledPackages join nodeModulesPath nd scanned
     = scanned @ first_wins (map fst scanned) (packages_in join nodeModulesPath nd)"
  "scanEntries join nodeModulesPath entries scanned
     = scanned @ first_wins (map fst scanned) (entries_in join nodeModulesPath entries)"
  "scanScoped join scopeName scopePath scopedPackages scanned
     = scanned @ first_wins (map fst scanned) (scoped_in join scopeName scopePath scopedPackages)"
  "scanPackage join packageName packagePath child scanned
     = scanned @ first_wins (map fst scanned) (package_in join packageName packagePath child)"
proof (induction join nodeModulesPath nd scanned and join nodeModulesPath entries scanned
         and join scopeName scopePath scopedPackages scanned
         and join packageName packagePath child scanned
         rule: getAllInstalledPackages_scanEntries_scanScoped_scanPackage.induct)
  case (1 join nodeModulesPath scanned)
  then show ?case by simp
next
  case (2 join nodeModulesPath nd scanned)
  then show ?case by (simp split: node.splits)
next
  case (3 join nodeModulesPath scanned)
  then show ?case by simp
next
  case (4 join nodeModulesPath ename child entries scanned)
  show ?case
  proof (cases "isDirectory child")
    case False
    then show ?thesis using 4(1) by simp
  next
    case dir: True
    show ?thesis
    proof (cases "startsWith ename ''@''")
      case True
      show ?thesis
      proof (cases child)
        case (Dir members)
        let ?in = "scanScoped join ename (join nodeModulesPath ename) members scanned"
        have a: "?in = scanned @ first_wins (map fst scanned)
                         (scoped_in join ename (join nodeModulesPath ename) members)"
          using 4(2) dir True Dir by simp
        have b: "scanEntries join nodeModulesPath entries ?in
                   = ?in @ first_wins (map fst ?in) (entries_in join nodeModulesPath entries)"
          using 4(3) dir True Dir by simp
        show ?thesis
          using dir True Dir
          by (simp add: b first_wins_append) (simp add: a)
      qed (use dir True in simp_all)
    next
      case False
      let ?in = "scanPackage join ename (join nodeModulesPath ename) child scanned"
      have a: "?in = scanned @ first_wins (map fst scanned)
                       (package_in join ename (join nodeModulesPath ename) child)"
        using 4(4) dir False by simp
      have b: "scanEntries join nodeModulesPath entries ?in
                 = ?in @ first_wins (map fst ?in) (entries_in join nodeModulesPath entries)"
        using 4(5) dir False by simp
      show ?thesis
        using dir False
        by (simp add: b first_wins_append) (simp add: a)
    qed
  qed
next
  case (5 join scopeName scopePath scanned)
  then show ?case by simp
next
  case (6 join scopeName scopePath sname child scopedPackages scanned)
  show ?case
  proof (cases "isDirectory child")
    case False
    then show ?thesis using 6(1) by simp
  next
    case dir: True
    let ?in = "scanPackage join (scopeName @ CHR ''/'' # sname) (join scopePath sname) child scanned"
    have a: "?in = scanned @ first_wins (map fst scanned)
                     (package_in join (scopeName @ CHR ''/'' # sname) (join scopePath sname) child)"
      using 6(2) dir by simp
    have b: "scanScoped join scopeName scopePath scopedPackages ?in
               = ?in @ first_wins (map fst ?in) (scoped_in join scopeName scopePath scopedPackages)"
      using 6(3) dir by simp
    show ?thesis
      using dir
      by (simp add: b first_wins_append) (simp add: a)
  qed
next
  case (7 join packageName packagePath m scanned)
  then show ?case by simp
next
  case (8 join packageName packagePath scanned)
  then show ?case by simp
next
  case (9 join packageName packagePath target scanned)
  then show ?case by simp
next
  case (10 join packageName packagePath files scanned)
  show ?case
  proof (cases "map_of files ''package.json''")
    case None
    then show ?thesis by simp
  next
    case (Some z)
    note z = Some
    show ?thesis
    proof (cases "\<exists>pkg. resolve z = File (ManifestObj pkg)")
      case False
      then show ?thesis
        using z by (auto split: node.splits manifest.splits)
    next
      case True
      then obtain pkg where pj: "resolve z = File (ManifestObj pkg)" by blast
      show ?thesis
      proof (cases "map_has scanned packageName")
        case True
        then show ?thesis
          using z pj by (simp add: map_has_keys)
      next
        case False
        let ?rec = "\<lparr>version = getProp pkg ''version'', path = packagePath\<rparr>"
        have fresh: "packageName \<notin> fst ` set scanned" using False by (simp add: map_has_keys)
        show ?thesis
        proof (cases "map_of files ''node_modules''")
          case None
          then show ?thesis
            using z pj False fresh by (simp add: map_set_fresh)
        next
          case (Some nested)
          have "getAllInstalledPackages join (join packagePath ''node_modules'') (Some nested)
                  (map_set scanned packageName ?rec)
                = map_set scanned packageName ?rec
                  @ first_wins (map fst (map_set scanned packageName ?rec))
                      (packages_in join (join packagePath ''node_modules'') (Some nested))"
            using 10 [of z "ManifestObj pkg" pkg "map_set scanned packageName ?rec" nested]
              z pj False Some
            by simp
          then show ?thesis
            using z pj False fresh Some
            by (simp add: map_set_fresh del: getAllInstalledPackages.simps packages_in.simps)
        qed
      qed
    qed
  qed
qed

lemma first_wins_cong:
  "set seen = set seen' \<Longrightarrow> first_wins seen forest = first_wins seen' forest"
proof (induction seen forest arbitrary: seen' rule: first_wins.induct)
  case (1 seen)
  then show ?case by simp
next
  case (2 seen k i below rest)
  show ?case
  proof (cases "k \<in> set seen")
    case True
    then show ?thesis using 2(1) [OF True 2(4)] 2(4) by simp
  next
    case False
    have a: "first_wins (seen @ [k]) below = first_wins (seen' @ [k]) below"
      using 2(2) [OF False, of "seen' @ [k]"] 2(4) by simp
    have b: "first_wins (seen @ [k] @ map fst (first_wins (seen @ [k]) below)) rest
               = first_wins (seen' @ [k] @ map fst (first_wins (seen @ [k]) below)) rest"
      using 2(3) [OF False refl, of "seen' @ [k] @ map fst (first_wins (seen @ [k]) below)"] 2(4)
      by simp
    show ?thesis
      using False 2(4) a b by (simp add: Let_def)
  qed
qed

lemma reached_cong:
  "set seen = set seen' \<Longrightarrow> reached seen forest = reached seen' forest"
proof (induction seen forest arbitrary: seen' rule: reached.induct)
  case (1 seen)
  then show ?case by simp
next
  case (2 seen k i below rest)
  show ?case
  proof (cases "k \<in> set seen")
    case True
    then show ?thesis using 2(1) [OF True 2(4)] 2(4) by simp
  next
    case False
    have a: "reached (seen @ [k]) below = reached (seen' @ [k]) below"
      using 2(2) [OF False, of "seen' @ [k]"] 2(4) by simp
    have b: "reached (seen @ [k] @ map fst (reached (seen @ [k]) below)) rest
               = reached (seen' @ [k] @ map fst (reached (seen @ [k]) below)) rest"
      using 2(3) [OF False refl, of "seen' @ [k] @ map fst (reached (seen @ [k]) below)"] 2(4)
      by simp
    show ?thesis
      using False 2(4) a b by (simp add: Let_def)
  qed
qed

lemma first_per_name_cong:
  "set seen = set seen' \<Longrightarrow> first_per_name seen xs = first_per_name seen' xs"
proof (induction seen xs arbitrary: seen' rule: first_per_name.induct)
  case (1 seen)
  then show ?case by simp
next
  case (2 seen k i rest)
  show ?case
  proof (cases "k \<in> set seen")
    case True
    then show ?thesis using 2(1) [OF True 2(3)] 2(3) by simp
  next
    case False
    have "first_per_name (seen @ [k]) rest = first_per_name (seen' @ [k]) rest"
      using 2(2) [OF False, of "seen' @ [k]"] 2(3) by simp
    then show ?thesis
      using False 2(3) by simp
  qed
qed

lemma first_per_name_append:
  "first_per_name seen (xs @ ys)
     = first_per_name seen xs @ first_per_name (seen @ map fst (first_per_name seen xs)) ys"
proof (induction seen xs rule: first_per_name.induct)
  case (1 seen)
  then show ?case by simp
next
  case (2 seen k i rest)
  then show ?case by simp
qed

lemma first_per_name_names:
  "set seen \<union> fst ` set (first_per_name seen xs) = set seen \<union> fst ` set xs"
proof (induction seen xs rule: first_per_name.induct)
  case (1 seen)
  then show ?case by simp
next
  case (2 seen k i rest)
  then show ?case by (cases "k \<in> set seen") auto
qed

lemma first_wins_reached:
  "first_wins seen forest = first_per_name seen (reached seen forest)"
proof (induction seen forest rule: first_wins.induct)
  case (1 seen)
  then show ?case by simp
next
  case (2 seen k i below rest)
  show ?case
  proof (cases "k \<in> set seen")
    case True
    then show ?thesis using 2(1) by simp
  next
    case False
    let ?kept = "first_wins (seen @ [k]) below"
    let ?r = "reached (seen @ [k]) below"
    have a: "?kept = first_per_name (seen @ [k]) ?r"
      using 2(2) [OF False] .
    have names: "set (seen @ [k] @ map fst ?kept) = set (seen @ [k] @ map fst ?r)"
      using first_per_name_names [of "seen @ [k]" ?r] by (simp add: a)
    have "first_wins (seen @ [k] @ map fst ?kept) rest
            = first_per_name (seen @ [k] @ map fst ?kept) (reached (seen @ [k] @ map fst ?kept) rest)"
      using 2(3) [OF False refl] .
    also have "reached (seen @ [k] @ map fst ?kept) rest = reached (seen @ [k] @ map fst ?r) rest"
      using names by (rule reached_cong)
    finally have b: "first_wins (seen @ [k] @ map fst ?kept) rest
            = first_per_name (seen @ [k] @ map fst ?kept) (reached (seen @ [k] @ map fst ?r) rest)" .
    have "first_per_name seen (reached seen (Occ k i below # rest))
            = (k, i) # first_per_name (seen @ [k]) (?r @ reached (seen @ [k] @ map fst ?r) rest)"
      using False by (simp add: Let_def)
    also have "\<dots> = (k, i) # ?kept @ first_per_name ((seen @ [k]) @ map fst ?kept)
                                   (reached (seen @ [k] @ map fst ?r) rest)"
      unfolding first_per_name_append a [symmetric] by simp
    also have "\<dots> = (k, i) # ?kept @ first_wins (seen @ [k] @ map fst ?kept) rest"
      using b by simp
    also have "\<dots> = first_wins seen (Occ k i below # rest)"
      using False by (simp add: Let_def)
    finally show ?thesis by simp
  qed
qed

lemma reached_subseq: "subseq (reached seen forest) (preorder forest)"
proof (induction seen forest rule: reached.induct)
  case (1 seen)
  then show ?case by simp
next
  case (2 seen k i below rest)
  show ?case
  proof (cases "k \<in> set seen")
    case True
    have "subseq ([] @ reached seen rest) (preorder below @ preorder rest)"
      using 2(1) [OF True] by (intro list_emb_append_mono) simp_all
    then show ?thesis using True by simp
  next
    case False
    have "subseq (reached (seen @ [k]) below
                    @ reached (seen @ [k] @ map fst (reached (seen @ [k]) below)) rest)
                 (preorder below @ preorder rest)"
      using 2(2) [OF False] 2(3) [OF False refl] by (rule list_emb_append_mono)
    then show ?thesis using False by (simp add: Let_def)
  qed
qed

lemma first_per_name_subseq: "subseq (first_per_name seen xs) xs"
  by (induction seen xs rule: first_per_name.induct) auto

lemma first_per_name_distinct:
  "distinct (map fst (first_per_name seen xs)) \<and> set seen \<inter> fst ` set (first_per_name seen xs) = {}"
proof (induction seen xs rule: first_per_name.induct)
  case (1 seen)
  then show ?case by simp
next
  case (2 seen k i rest)
  then show ?case by (cases "k \<in> set seen") auto
qed



section \<open>Properties of the classifier\<close>

lemma classify_count:
  "length (compromised (classify reg p r)) + length (suspicious (classify reg p r))
     + safe (classify reg p r)
   = Suc (length (compromised r) + length (suspicious r) + safe r)"
  by (cases p) (simp add: classify_def Let_def split: option.splits)

lemma fold_classify_count:
  "length (compromised (fold (classify reg) ps r)) + length (suspicious (fold (classify reg) ps r))
     + safe (fold (classify reg) ps r)
   = length ps + (length (compromised r) + length (suspicious r) + safe r)"
  by (induction ps arbitrary: r) (simp_all add: classify_count del: add_Suc_right add_Suc)

lemma classify_totalScanned: "totalScanned (classify reg p r) = totalScanned r"
  by (cases p) (simp add: classify_def Let_def split: option.splits)

lemma fold_classify_totalScanned: "totalScanned (fold (classify reg) ps r) = totalScanned r"
  by (induction ps arbitrary: r) (simp_all add: classify_totalScanned)

lemma classify_names:
  "mset (map c_name (compromised (classify reg (n, i) r)))
     + mset (map s_name (suspicious (classify reg (n, i) r)))
     + (if map_get reg (JStr n) = None then {#n#} else {#})
   = {#n#} + (mset (map c_name (compromised r)) + mset (map s_name (suspicious r)))"
  by (simp add: classify_def Let_def split: option.splits)

lemma fold_classify_names:
  "mset (map c_name (compromised (fold (classify reg) ps r)))
     + mset (map s_name (suspicious (fold (classify reg) ps r)))
     + mset (filter (\<lambda>n. map_get reg (JStr n) = None) (map fst ps))
   = mset (map fst ps) + (mset (map c_name (compromised r)) + mset (map s_name (suspicious r)))"
proof (induction ps arbitrary: r)
  case Nil
  then show ?case by simp
next
  case (Cons p ps)
  obtain n i where p: "p = (n, i)" by (cases p)
  have "mset (map c_name (compromised (fold (classify reg) (p # ps) r)))
          + mset (map s_name (suspicious (fold (classify reg) (p # ps) r)))
          + mset (filter (\<lambda>n. map_get reg (JStr n) = None) (map fst (p # ps)))
        = mset (map fst ps)
          + (mset (map c_name (compromised (classify reg (n, i) r)))
             + mset (map s_name (suspicious (classify reg (n, i) r)))
             + (if map_get reg (JStr n) = None then {#n#} else {#}))"
    using Cons.IH [of "classify reg (n, i) r"] by (simp add: p)
  then show ?case
    by (simp only: classify_names) (simp add: p)
qed

lemma classify_safe:
  "safe (classify reg (n, i) r) = safe r + (if map_get reg (JStr n) = None then 1 else 0)"
  by (simp add: classify_def Let_def split: option.splits)

lemma fold_classify_safe:
  "safe (fold (classify reg) ps r)
     = length (filter (\<lambda>n. map_get reg (JStr n) = None) (map fst ps)) + safe r"
proof (induction ps arbitrary: r)
  case Nil
  then show ?case by simp
next
  case (Cons p ps)
  show ?case
    by (cases p) (simp add: Cons.IH classify_safe)
qed

lemma fold_classify_keeps:
  "x \<in> set (compromised r) \<Longrightarrow> x \<in> set (compromised (fold (classify reg) ps r))"
  "y \<in> set (suspicious r) \<Longrightarrow> y \<in> set (suspicious (fold (classify reg) ps r))"
proof (induction ps arbitrary: r)
  case Nil
  { case 1 then show ?case by simp }
  { case 2 then show ?case by simp }
next
  case (Cons p ps)
  { case 1
    then have "x \<in> set (compromised (classify reg p r))"
      by (cases p) (simp add: classify_def Let_def split: option.splits)
    then show ?case using Cons.IH(1) by simp }
  { case 2
    then have "y \<in> set (suspicious (classify reg p r))"
      by (cases p) (simp add: classify_def Let_def split: option.splits)
    then show ?case using Cons.IH(2) by simp }
qed

lemma fold_classify_compromised:
  assumes "(name, info) \<in> set ps"
      and "map_get reg (JStr name) = Some compromisedData"
      and "map_get (versions compromisedData) (version info) = Some srcs"
  shows "\<lparr>c_name = name, c_installedVersion = version info,
           c_compromisedVersions = map fst (versions compromisedData), c_sources = srcs,
           c_allSources = sources compromisedData, c_path = path info\<rparr>
         \<in> set (compromised (fold (classify reg) ps r))"
  using assms(1)
proof (induction ps arbitrary: r)
  case Nil
  then show ?case by simp
next
  case (Cons p ps)
  show ?case
  proof (cases "p = (name, info)")
    case True
    have "\<lparr>c_name = name, c_installedVersion = version info,
            c_compromisedVersions = map fst (versions compromisedData), c_sources = srcs,
            c_allSources = sources compromisedData, c_path = path info\<rparr>
          \<in> set (compromised (classify reg (name, info) r))"
      using assms(2,3) by (simp add: classify_def)
    then show ?thesis
      using True by (simp add: fold_classify_keeps(1))
  next
    case False
    with Cons show ?thesis by simp
  qed
qed

lemma fold_classify_suspicious:
  assumes "(name, info) \<in> set ps"
      and "map_get reg (JStr name) = Some compromisedData"
      and "map_get (versions compromisedData) (version info) = None"
  shows "\<lparr>s_name = name, s_installedVersion = version info,
           s_compromisedVersions = map fst (versions compromisedData),
           s_sources = sources compromisedData, s_path = path info\<rparr>
         \<in> set (suspicious (fold (classify reg) ps r))"
  using assms(1)
proof (induction ps arbitrary: r)
  case Nil
  then show ?case by simp
next
  case (Cons p ps)
  show ?case
  proof (cases "p = (name, info)")
    case True
    have "\<lparr>s_name = name, s_installedVersion = version info,
            s_compromisedVersions = map fst (versions compromisedData),
            s_sources = sources compromisedData, s_path = path info\<rparr>
          \<in> set (suspicious (classify reg (name, info) r))"
      using assms(2,3) by (simp add: classify_def)
    then show ?thesis
      using True by (simp add: fold_classify_keeps(2))
  next
    case False
    with Cons show ?thesis by simp
  qed
qed

lemma three_package_scan:
  "scanAllPackages slash_join three_package_project ''root'' foo_bar_registry
     = \<lparr>compromised =
          [\<lparr>c_name = ''foo'', c_installedVersion = JStr ''1.0.0'',
            c_compromisedVersions = [JStr ''1.0.0''], c_sources = [''feedX''],
            c_allSources = [''feedX''], c_path = ''root/node_modules/foo''\<rparr>],
        suspicious =
          [\<lparr>s_name = ''bar'', s_installedVersion = JStr ''2.0.0'',
            s_compromisedVersions = [JStr ''1.0.0''], s_sources = [''feedX''],
            s_path = ''root/node_modules/bar''\<rparr>],
        safe = 1, totalScanned = 3\<rparr>"
  by (simp add: scanAllPackages_def three_package_installed classify_def map_get_def
        foo_bar_registry_def foo_entry_def)


section \<open>Claims about the enumerator\<close>

text \<open>
  C10, as the specification states it: when a package name occurs at several install
  paths of the tree, the record of the first occurrence in depth-first order is the one
  that is kept.  In the project with \<open>a\<close>, then \<open>b\<close>, whose private copy of \<open>a\<close> holds \<open>c\<close> at
  1.0.0, and last \<open>c\<close> at 2.0.0, the first \<open>c\<close> in depth-first order is the one below the
  private \<open>a\<close>.  The walk does not enter the private \<open>a\<close>, whose name is recorded by then, and
  keeps the \<open>c\<close> of the top level.
\<close>

theorem first_in_tree_order_counterexample:
  "preorder (packages_in slash_join ''root/node_modules'' (Some hidden_c_modules))
     = [(''a'', \<lparr>version = JStr ''1.0.0'', path = ''root/node_modules/a''\<rparr>),
        (''b'', \<lparr>version = JStr ''1.0.0'', path = ''root/node_modules/b''\<rparr>),
        (''a'', \<lparr>version = JStr ''2.0.0'', path = ''root/node_modules/b/node_modules/a''\<rparr>),
        (''c'', \<lparr>version = JStr ''1.0.0'',
                 path = ''root/node_modules/b/node_modules/a/node_modules/c''\<rparr>),
        (''c'', \<lparr>version = JStr ''2.0.0'', path = ''root/node_modules/c''\<rparr>)]
   \<and> installedPackages slash_join hidden_c_project ''root''
     = [(''a'', \<lparr>version = JStr ''1.0.0'', path = ''root/node_modules/a''\<rparr>),
        (''b'', \<lparr>version = JStr ''1.0.0'', path = ''root/node_modules/b''\<rparr>),
        (''c'', \<lparr>version = JStr ''2.0.0'', path = ''root/node_modules/c''\<rparr>)]
   \<and> map_get (installedPackages slash_join hidden_c_project ''root'') ''c''
     \<noteq> map_of (preorder (packages_in slash_join ''root/node_modules'' (Some hidden_c_modules))) ''c''"
  by (simp add: hidden_c_installed hidden_c_preorder map_get_def del: packages_in.simps)

text \<open>
  C10, amended.  \<open>getAllInstalledPackages\<close> extends its accumulator monotonically: the
  returned map starts with the accumulator as it was passed, so every key and value present
  at the call is present and unchanged in the result, and a package directory whose name is
  in the accumulator is passed over, with everything below it.  What the walk appends is
  what \<open>first_wins\<close> keeps of the forest of package directories: the walk is depth-first in
  directory order, it does not descend below a copy whose name is recorded, and of the
  occurrences that it reaches, a subsequence of all occurrences in depth-first order, it
  keeps under each name the first one.  In the project with \<open>a\<close>, which holds \<open>b\<close> at 1.0.0,
  before \<open>b\<close> at 2.0.0, the \<open>b\<close> below \<open>a\<close> is kept.
\<close>

theorem accumulator_grows_first_reached_kept:
  "getAllInstalledPackages join nodeModulesPath nd scanned
     = scanned @ first_wins (map fst scanned) (packages_in join nodeModulesPath nd)
   \<and> prefix scanned (getAllInstalledPackages join nodeModulesPath nd scanned)
   \<and> (map_get scanned name = Some info
        \<longrightarrow> map_get (getAllInstalledPackages join nodeModulesPath nd scanned) name = Some info)
   \<and> (map_has scanned packageName
        \<longrightarrow> scanPackage join packageName packagePath child scanned = scanned)
   \<and> first_wins seen forest = first_per_name seen (reached seen forest)
   \<and> subseq (reached seen forest) (preorder forest)
   \<and> installedPackages slash_join nested_b_project ''root''
     = [(''a'', \<lparr>version = JStr ''1.0.0'', path = ''root/node_modules/a''\<rparr>),
        (''b'', \<lparr>version = JStr ''1.0.0'', path = ''root/node_modules/a/node_modules/b''\<rparr>)]"
proof (intro conjI impI)
  show "getAllInstalledPackages join nodeModulesPath nd scanned
          = scanned @ first_wins (map fst scanned) (packages_in join nodeModulesPath nd)"
    by (rule walk_first_wins)
  show "prefix scanned (getAllInstalledPackages join nodeModulesPath nd scanned)"
    by (rule walk_prefix)
  then show "map_get (getAllInstalledPackages join nodeModulesPath nd scanned) name = Some info"
    if "map_get scanned name = Some info"
    using that unfolding map_get_def by (rule prefix_map_of)
  show "scanPackage join packageName packagePath child scanned = scanned"
    if "map_has scanned packageName"
    using that by (rule scanPackage_present)
  show "first_wins seen forest = first_per_name seen (reached seen forest)"
    by (rule first_wins_reached)
  show "subseq (reached seen forest) (preorder forest)"
    by (rule reached_subseq)
  show "installedPackages slash_join nested_b_project ''root''
     = [(''a'', \<lparr>version = JStr ''1.0.0'', path = ''root/node_modules/a''\<rparr>),
        (''b'', \<lparr>version = JStr ''1.0.0'', path = ''root/node_modules/a/node_modules/b''\<rparr>)]"
    by (rule nested_b_installed)
qed

theorem accumulator_grows_first_reached_kept_witness:
  "getAllInstalledPackages slash_join ''root/node_modules'' (Some hidden_c_modules)
       [(''b'', \<lparr>version = JStr ''7.7.7'', path = ''elsewhere''\<rparr>)]
     = [(''b'', \<lparr>version = JStr ''7.7.7'', path = ''elsewhere''\<rparr>),
        (''a'', \<lparr>version = JStr ''1.0.0'', path = ''root/node_modules/a''\<rparr>),
        (''c'', \<lparr>version = JStr ''2.0.0'', path = ''root/node_modules/c''\<rparr>)]
   \<and> map_get (getAllInstalledPackages slash_join ''root/node_modules'' (Some hidden_c_modules)
                [(''b'', \<lparr>version = JStr ''7.7.7'', path = ''elsewhere''\<rparr>)]) ''b''
     = Some \<lparr>version = JStr ''7.7.7'', path = ''elsewhere''\<rparr>
   \<and> scanPackage slash_join ''b'' ''root/node_modules/b'' (Dir [package_json ''1.0.0''])
        [(''b'', \<lparr>version = JStr ''7.7.7'', path = ''elsewhere''\<rparr>)]
     = [(''b'', \<lparr>version = JStr ''7.7.7'', path = ''elsewhere''\<rparr>)]"
proof -
  let ?acc = "[(''b'', \<lparr>version = JStr ''7.7.7'', path = ''elsewhere''\<rparr>)]"
  have h1: "map_get ?acc ''b'' = Some \<lparr>version = JStr ''7.7.7'', path = ''elsewhere''\<rparr>"
    by (simp add: map_get_def)
  have h2: "map_has ?acc ''b''"
    by (simp add: map_has_def)
  have f: "first_wins [''b''] (packages_in slash_join ''root/node_modules'' (Some hidden_c_modules))
             = [(''a'', \<lparr>version = JStr ''1.0.0'', path = ''root/node_modules/a''\<rparr>),
                (''c'', \<lparr>version = JStr ''2.0.0'', path = ''root/node_modules/c''\<rparr>)]"
    by (simp add: hidden_c_modules_def package_json_def slash_join_def startsWith_def
          getProp_def)
  show ?thesis
    using h1 h2 f
      accumulator_grows_first_reached_kept [of slash_join "''root/node_modules''"
        "Some hidden_c_modules" ?acc "''b''"
        "\<lparr>version = JStr ''7.7.7'', path = ''elsewhere''\<rparr>" "''b''"
        "''root/node_modules/b''" "Dir [package_json ''1.0.0'']" "[]" "[]"]
    by (simp add: map_get_def del: getAllInstalledPackages.simps packages_in.simps)
qed

text \<open>
  C1, as the specification states it: one record per distinct install path, so that the
  project with \<open>foo\<close> 1.0.0 and a nested \<open>foo\<close> 0.9.0 has two records.  The code keeps one.
\<close>

theorem one_record_per_path_counterexample:
  "installedPackages slash_join nested_foo_project ''root''
     = [(''foo'', \<lparr>version = JStr ''1.0.0'', path = ''root/node_modules/foo''\<rparr>)]
   \<and> length (installedPackages slash_join nested_foo_project ''root'') \<noteq> 2"
  by (simp add: nested_foo_installed)

text \<open>
  C1, amended.  The enumerator records at most one package per distinct package name,
  keyed by the name: started on a map with one record per name, it returns a map with
  one record per name, and a copy of a package whose name is already recorded, at whatever
  install path, is not recorded.  Enumerating the project with \<open>foo\<close> 1.0.0 and the nested
  \<open>foo\<close> 0.9.0 yields one record, named \<open>foo\<close>, with version 1.0.0 and the install path of
  the outer copy.
\<close>

theorem one_record_per_name:
  "(distinct (map fst scanned)
      \<longrightarrow> distinct (map fst (getAllInstalledPackages join nodeModulesPath nd scanned)))
   \<and> (map_has scanned packageName
        \<longrightarrow> scanPackage join packageName packagePath child scanned = scanned)
   \<and> distinct (map fst (installedPackages join root projectRoot))
   \<and> installedPackages slash_join nested_foo_project ''root''
       = [(''foo'', \<lparr>version = JStr ''1.0.0'', path = ''root/node_modules/foo''\<rparr>)]"
proof (intro conjI impI)
  show "distinct (map fst (getAllInstalledPackages join nodeModulesPath nd scanned))"
    if "distinct (map fst scanned)"
    using that by (rule walk_distinct(1))
  show "scanPackage join packageName packagePath child scanned = scanned"
    if "map_has scanned packageName"
    using that by (cases child) simp_all
  show "distinct (map fst (installedPackages join root projectRoot))"
    by (simp add: installedPackages_def walk_distinct(1))
  show "installedPackages slash_join nested_foo_project ''root''
       = [(''foo'', \<lparr>version = JStr ''1.0.0'', path = ''root/node_modules/foo''\<rparr>)]"
    by (rule nested_foo_installed)
qed

theorem one_record_per_name_witness:
  "distinct (map fst (getAllInstalledPackages slash_join ''root/node_modules''
         (Some (Dir [(''foo'', Dir [package_json ''1.0.0''])]))
         [(''left-pad'', \<lparr>version = JStr ''1.3.0'', path = ''x''\<rparr>)]))
   \<and> scanPackage slash_join ''left-pad'' ''root/node_modules/foo/node_modules/left-pad''
        (Dir [package_json ''1.0.0''])
        [(''left-pad'', \<lparr>version = JStr ''1.3.0'', path = ''x''\<rparr>)]
     = [(''left-pad'', \<lparr>version = JStr ''1.3.0'', path = ''x''\<rparr>)]"
proof -
  let ?acc = "[(''left-pad'', \<lparr>version = JStr ''1.3.0'', path = ''x''\<rparr>)]"
  have h1: "distinct (map fst ?acc)"
    by simp
  have h2: "map_has ?acc ''left-pad''"
    by (simp add: map_has_def)
  show ?thesis
    using h1 h2
      one_record_per_name [of ?acc slash_join "''root/node_modules''"
        "Some (Dir [(''foo'', Dir [package_json ''1.0.0''])])" "''left-pad''"
        "''root/node_modules/foo/node_modules/left-pad''" "Dir [package_json ''1.0.0'']"]
    by simp
qed

text \<open>
  C9, as the specification states it: a package whose manifest parses but has no version
  field is excluded from the installed set.  The code records it, with an undefined
  version.
\<close>

theorem versionless_excluded_counterexample:
  "map_get (installedPackages slash_join versionless_project ''root'') ''foo''
     = Some \<lparr>version = JUndefined, path = ''root/node_modules/foo''\<rparr>
   \<and> map_has (installedPackages slash_join versionless_project ''root'') ''foo''"
  by (simp add: versionless_installed map_get_def map_has_def)

text \<open>
  C9, amended.  A package directory that the walk comes to, directly in a \<^verbatim>\<open>node_modules\<close>
  directory or in a scope directory, whose manifest parses to a value other than \<^verbatim>\<open>null\<close>
  and has no version field, and whose name is not yet recorded, is recorded with an
  undefined version and its install path; the walk does not halt: the loop that came to
  the directory goes on with the remaining entries, and the record is in its result and
  in the result of whatever the walk does afterwards.
\<close>

theorem versionless_recorded:
  assumes "map_of files ''package.json'' = Some packageJson"
      and "resolve packageJson = File (ManifestObj pkg)"
      and "map_of pkg ''version'' = None"
      and "\<not> map_has scanned packageName"
  shows "map_get (scanPackage join packageName packagePath (Dir files) scanned) packageName
           = Some \<lparr>version = JUndefined, path = packagePath\<rparr>
         \<and> map_get (getAllInstalledPackages join nodeModulesPath nd
                      (scanPackage join packageName packagePath (Dir files) scanned)) packageName
           = Some \<lparr>version = JUndefined, path = packagePath\<rparr>
         \<and> (\<not> startsWith packageName ''@'' \<longrightarrow>
              scanEntries join nodeModulesPath ((packageName, Dir files) # entries) scanned
                = scanEntries join nodeModulesPath entries
                    (scanPackage join packageName (join nodeModulesPath packageName) (Dir files)
                       scanned)
              \<and> map_get (scanEntries join nodeModulesPath ((packageName, Dir files) # entries)
                           scanned) packageName
                = Some \<lparr>version = JUndefined, path = join nodeModulesPath packageName\<rparr>)
         \<and> (packageName = scopeName @ ''/'' @ sname \<longrightarrow>
              scanScoped join scopeName scopePath ((sname, Dir files) # scopedPackages) scanned
                = scanScoped join scopeName scopePath scopedPackages
                    (scanPackage join packageName (join scopePath sname) (Dir files) scanned)
              \<and> map_get (scanScoped join scopeName scopePath ((sname, Dir files) # scopedPackages)
                           scanned) packageName
                = Some \<lparr>version = JUndefined, path = join scopePath sname\<rparr>)
         \<and> (packageName = scopeName @ ''/'' @ sname \<and> startsWith scopeName ''@'' \<longrightarrow>
              map_get (scanEntries join nodeModulesPath
                         ((scopeName, Dir ((sname, Dir files) # scopedPackages)) # entries) scanned)
                packageName
                = Some \<lparr>version = JUndefined, path = join (join nodeModulesPath scopeName) sname\<rparr>)"
proof -
  have v: "getProp pkg ''version'' = JUndefined"
    using assms(3) by (simp add: getProp_def)
  note rec = scanPackage_recorded [OF assms(1,2,4), unfolded v]
  have 1: "map_get (scanPackage join packageName packagePath (Dir files) scanned) packageName
             = Some \<lparr>version = JUndefined, path = packagePath\<rparr>"
    unfolding map_get_def by (rule rec) (rule prefix_order.refl)
  have 2: "map_get (getAllInstalledPackages join nodeModulesPath nd
                      (scanPackage join packageName packagePath (Dir files) scanned)) packageName
             = Some \<lparr>version = JUndefined, path = packagePath\<rparr>"
    unfolding map_get_def by (rule rec) (rule walk_prefix)
  have 3: "scanEntries join nodeModulesPath ((packageName, Dir files) # entries) scanned
             = scanEntries join nodeModulesPath entries
                 (scanPackage join packageName (join nodeModulesPath packageName) (Dir files)
                    scanned)
           \<and> map_get (scanEntries join nodeModulesPath ((packageName, Dir files) # entries)
                        scanned) packageName
             = Some \<lparr>version = JUndefined, path = join nodeModulesPath packageName\<rparr>"
    if u: "\<not> startsWith packageName ''@''"
  proof -
    have step: "scanEntries join nodeModulesPath ((packageName, Dir files) # entries) scanned
                  = scanEntries join nodeModulesPath entries
                      (scanPackage join packageName (join nodeModulesPath packageName) (Dir files)
                         scanned)"
      using u by simp
    have "map_of (scanEntries join nodeModulesPath entries
                    (scanPackage join packageName (join nodeModulesPath packageName) (Dir files)
                       scanned)) packageName
            = Some \<lparr>version = JUndefined, path = join nodeModulesPath packageName\<rparr>"
      by (rule rec) (rule walk_prefix)
    then show ?thesis
      unfolding map_get_def by (simp only: step simp_thms)
  qed
  have 4: "scanScoped join scopeName scopePath ((sname, Dir files) # scopedPackages) scanned
             = scanScoped join scopeName scopePath scopedPackages
                 (scanPackage join packageName (join scopePath sname) (Dir files) scanned)
           \<and> map_get (scanScoped join scopeName scopePath ((sname, Dir files) # scopedPackages)
                        scanned) packageName
             = Some \<lparr>version = JUndefined, path = join scopePath sname\<rparr>"
    if n: "packageName = scopeName @ ''/'' @ sname"
  proof -
    have step: "scanScoped join scopeName scopePath ((sname, Dir files) # scopedPackages) scanned
                  = scanScoped join scopeName scopePath scopedPackages
                      (scanPackage join packageName (join scopePath sname) (Dir files) scanned)"
      using n by simp
    have "map_of (scanScoped join scopeName scopePath scopedPackages
                    (scanPackage join packageName (join scopePath sname) (Dir files) scanned))
            packageName
            = Some \<lparr>version = JUndefined, path = join scopePath sname\<rparr>"
      by (rule rec) (rule walk_prefix)
    then show ?thesis
      unfolding map_get_def by (simp only: step simp_thms)
  qed
  have 5: "map_get (scanEntries join nodeModulesPath
                      ((scopeName, Dir ((sname, Dir files) # scopedPackages)) # entries) scanned)
             packageName
             = Some \<lparr>version = JUndefined, path = join (join nodeModulesPath scopeName) sname\<rparr>"
    if n: "packageName = scopeName @ ''/'' @ sname \<and> startsWith scopeName ''@''"
  proof -
    let ?p = "scanPackage join packageName (join (join nodeModulesPath scopeName) sname)
                (Dir files) scanned"
    let ?s = "scanScoped join scopeName (join nodeModulesPath scopeName) scopedPackages ?p"
    have step: "scanEntries join nodeModulesPath
                  ((scopeName, Dir ((sname, Dir files) # scopedPackages)) # entries) scanned
                  = scanEntries join nodeModulesPath entries ?s"
      using n by simp
    have "prefix ?p ?s" by (rule walk_prefix)
    moreover have "prefix ?s (scanEntries join nodeModulesPath entries ?s)" by (rule walk_prefix)
    ultimately have "prefix ?p (scanEntries join nodeModulesPath entries ?s)"
      by (rule prefix_order.trans)
    then have "map_of (scanEntries join nodeModulesPath entries ?s) packageName
            = Some \<lparr>version = JUndefined, path = join (join nodeModulesPath scopeName) sname\<rparr>"
      by (rule rec)
    then show ?thesis
      unfolding map_get_def by (simp only: step)
  qed
  from 1 2 3 4 5 show ?thesis by blast
qed

theorem versionless_recorded_witness:
  "scanEntries slash_join ''root/node_modules''
     [(''foo'', Dir [(''package.json'', File (ManifestObj [(''name'', JStr ''foo'')]))]),
      (''baz'', Dir [package_json ''3.0.0''])] []
     = [(''foo'', \<lparr>version = JUndefined, path = ''root/node_modules/foo''\<rparr>),
        (''baz'', \<lparr>version = JStr ''3.0.0'', path = ''root/node_modules/baz''\<rparr>)]
   \<and> map_get (scanScoped slash_join ''@scope'' ''root/node_modules/@scope''
         [(''foo'', Dir [(''package.json'', File (ManifestObj [(''name'', JStr ''foo'')]))]),
          (''bar'', Dir [package_json ''2.0.0''])] []) ''@scope/foo''
     = Some \<lparr>version = JUndefined, path = ''root/node_modules/@scope/foo''\<rparr>
   \<and> scanEntries slash_join ''root/node_modules''
         [(''@scope'',
            Dir [(''foo'', Dir [(''package.json'', File (ManifestObj [(''name'', JStr ''foo'')]))]),
                 (''bar'', Dir [package_json ''2.0.0''])]),
          (''baz'', Dir [package_json ''3.0.0''])] []
     = [(''@scope/foo'', \<lparr>version = JUndefined, path = ''root/node_modules/@scope/foo''\<rparr>),
        (''@scope/bar'', \<lparr>version = JStr ''2.0.0'', path = ''root/node_modules/@scope/bar''\<rparr>),
        (''baz'', \<lparr>version = JStr ''3.0.0'', path = ''root/node_modules/baz''\<rparr>)]"
proof -
  have h1: "map_of [(''package.json'', File (ManifestObj [(''name'', JStr ''foo'')]))]
              ''package.json'' = Some (File (ManifestObj [(''name'', JStr ''foo'')]))"
    by simp
  have h2: "resolve (File (ManifestObj [(''name'', JStr ''foo'')]))
              = File (ManifestObj [(''name'', JStr ''foo'')])"
    by simp
  have h3: "map_of [(''name'', JStr ''foo'')] ''version'' = None"
    by simp
  have h4: "\<not> map_has ([] :: scanned) ''foo''"
    by (simp add: map_has_def)
  have h5: "\<not> map_has ([] :: scanned) ''@scope/foo''"
    by (simp add: map_has_def)
  have h6: "\<not> startsWith ''foo'' ''@''"
    by (simp add: startsWith_def)
  have h7: "''@scope/foo'' = ''@scope'' @ ''/'' @ ''foo'' \<and> startsWith ''@scope'' ''@''"
    by (simp add: startsWith_def)
  show ?thesis
    using h6 h7
      versionless_recorded [OF h1 h2 h3 h4, where join = slash_join
        and packagePath = "''root/node_modules/foo''" and nodeModulesPath = "''root/node_modules''"
        and nd = None and entries = "[(''baz'', Dir [package_json ''3.0.0''])]"
        and scopeName = "''x''" and sname = "''y''" and scopePath = "''z''"
        and scopedPackages = "[]"]
      versionless_recorded [OF h1 h2 h3 h5, where join = slash_join
        and packagePath = "''root/node_modules/@scope/foo''"
        and nodeModulesPath = "''root/node_modules''"
        and nd = None and entries = "[(''baz'', Dir [package_json ''3.0.0''])]"
        and scopeName = "''@scope''" and sname = "''foo''"
        and scopePath = "''root/node_modules/@scope''"
        and scopedPackages = "[(''bar'', Dir [package_json ''2.0.0''])]"]
    by (simp add: package_json_def slash_join_def startsWith_def map_has_def getProp_def)
qed


section \<open>Claims about the classifier\<close>

text \<open>
  C2.  The classifier puts every installed package in exactly one of the three
  categories: the number of Compromised results plus the number of Suspicious results plus
  the safe count is the number of installed packages scanned.  The installed packages have
  distinct names, and the names of the Compromised results, of the Suspicious results and
  of the packages counted safe (those without an entry in the registry) are together the
  names of the installed packages, each once.
\<close>

theorem classification_partitions_installed:
  "length (compromised (scanAllPackages join root projectRoot reg))
     + length (suspicious (scanAllPackages join root projectRoot reg))
     + safe (scanAllPackages join root projectRoot reg)
   = totalScanned (scanAllPackages join root projectRoot reg)
   \<and> totalScanned (scanAllPackages join root projectRoot reg)
     = length (installedPackages join root projectRoot)
   \<and> distinct (map fst (installedPackages join root projectRoot))
   \<and> mset (map c_name (compromised (scanAllPackages join root projectRoot reg)))
       + mset (map s_name (suspicious (scanAllPackages join root projectRoot reg)))
       + mset (filter (\<lambda>n. map_get reg (JStr n) = None)
                 (map fst (installedPackages join root projectRoot)))
     = mset (map fst (installedPackages join root projectRoot))
   \<and> safe (scanAllPackages join root projectRoot reg)
     = length (filter (\<lambda>n. map_get reg (JStr n) = None)
                 (map fst (installedPackages join root projectRoot)))"
proof (intro conjI)
  let ?r = "scanAllPackages join root projectRoot reg"
  show "length (compromised ?r) + length (suspicious ?r) + safe ?r = totalScanned ?r"
    by (simp add: scanAllPackages_def Let_def fold_classify_count fold_classify_totalScanned)
  show "totalScanned ?r = length (installedPackages join root projectRoot)"
    by (simp add: scanAllPackages_def Let_def fold_classify_totalScanned)
  show "distinct (map fst (installedPackages join root projectRoot))"
    by (simp add: installedPackages_def walk_distinct(1))
  show "mset (map c_name (compromised ?r)) + mset (map s_name (suspicious ?r))
          + mset (filter (\<lambda>n. map_get reg (JStr n) = None)
                    (map fst (installedPackages join root projectRoot)))
        = mset (map fst (installedPackages join root projectRoot))"
    unfolding scanAllPackages_def Let_def
    by (simp only: fold_classify_names) simp
  show "safe ?r = length (filter (\<lambda>n. map_get reg (JStr n) = None)
                            (map fst (installedPackages join root projectRoot)))"
    by (simp add: scanAllPackages_def Let_def fold_classify_safe)
qed

theorem classification_partitions_installed_witness:
  "length (compromised (scanAllPackages slash_join three_package_project ''root'' foo_bar_registry)) = 1
   \<and> length (suspicious (scanAllPackages slash_join three_package_project ''root'' foo_bar_registry)) = 1
   \<and> safe (scanAllPackages slash_join three_package_project ''root'' foo_bar_registry) = 1
   \<and> totalScanned (scanAllPackages slash_join three_package_project ''root'' foo_bar_registry) = 3"
  using classification_partitions_installed [of slash_join three_package_project "''root''" foo_bar_registry]
  by (simp add: three_package_scan)

text \<open>
  C3.  For an installed package whose name has an entry in the registry: if the entry's
  versions map contains the installed version, the classifier emits a Compromised result
  with all the known-bad versions of the entry and the source set of the matched version;
  if the installed version is not among the entry's versions, it emits a Suspicious result
  with all the known-bad versions and the entry's overall source set.
\<close>

theorem classifier_verdicts:
  assumes "(name, info) \<in> set (installedPackages join root projectRoot)"
      and "map_get reg (JStr name) = Some compromisedData"
  shows "(\<forall>srcs. map_get (versions compromisedData) (version info) = Some srcs \<longrightarrow>
            \<lparr>c_name = name, c_installedVersion = version info,
             c_compromisedVersions = map fst (versions compromisedData), c_sources = srcs,
             c_allSources = sources compromisedData, c_path = path info\<rparr>
            \<in> set (compromised (scanAllPackages join root projectRoot reg)))
         \<and> (map_get (versions compromisedData) (version info) = None \<longrightarrow>
            \<lparr>s_name = name, s_installedVersion = version info,
             s_compromisedVersions = map fst (versions compromisedData),
             s_sources = sources compromisedData, s_path = path info\<rparr>
            \<in> set (suspicious (scanAllPackages join root projectRoot reg)))"
  using assms
  by (simp add: scanAllPackages_def Let_def fold_classify_compromised fold_classify_suspicious)

theorem classifier_verdicts_witness:
  "\<lparr>c_name = ''foo'', c_installedVersion = JStr ''1.0.0'',
    c_compromisedVersions = [JStr ''1.0.0''], c_sources = [''feedX''],
    c_allSources = [''feedX''], c_path = ''root/node_modules/foo''\<rparr>
   \<in> set (compromised (scanAllPackages slash_join three_package_project ''root'' foo_bar_registry))
   \<and> \<lparr>s_name = ''bar'', s_installedVersion = JStr ''2.0.0'',
      s_compromisedVersions = [JStr ''1.0.0''], s_sources = [''feedX''],
      s_path = ''root/node_modules/bar''\<rparr>
   \<in> set (suspicious (scanAllPackages slash_join three_package_project ''root'' foo_bar_registry))"
proof -
  have foo: "(''foo'', \<lparr>version = JStr ''1.0.0'', path = ''root/node_modules/foo''\<rparr>)
               \<in> set (installedPackages slash_join three_package_project ''root'')"
    by (simp add: three_package_installed)
  have bar: "(''bar'', \<lparr>version = JStr ''2.0.0'', path = ''root/node_modules/bar''\<rparr>)
               \<in> set (installedPackages slash_join three_package_project ''root'')"
    by (simp add: three_package_installed)
  have rfoo: "map_get foo_bar_registry (JStr ''foo'') = Some foo_entry"
    by (simp add: map_get_def foo_bar_registry_def)
  have rbar: "map_get foo_bar_registry (JStr ''bar'') = Some foo_entry"
    by (simp add: map_get_def foo_bar_registry_def)
  show ?thesis
    using classifier_verdicts [OF foo rfoo] classifier_verdicts [OF bar rbar]
    by (simp add: map_get_def foo_entry_def)
qed


section \<open>Properties of Map and Set\<close>

lemma map_of_map_set: "map_of (map_set m k v) k' = (if k' = k then Some v else map_of m k')"
  by (induction m) auto

lemma map_of_ensure:
  "map_of (ensure m k d) k' = (if k' = k \<and> map_of m k = None then Some d else map_of m k')"
  by (simp add: ensure_def map_has_def map_of_map_set)

lemma map_of_modify:
  "map_of (modify m k f) k' = (if k' = k then map_option f (map_of m k) else map_of m k')"
  by (induction m) (auto simp: modify_def)

lemma keys_map_set: "fst ` set (map_set m k v) = insert k (fst ` set m)"
  by (induction m) (force split: if_splits)+

lemma keys_ensure: "fst ` set (ensure m k d) = insert k (fst ` set m)"
  by (auto simp: ensure_def keys_map_set map_has_def map_of_eq_None_iff)

lemma keys_modify: "fst ` set (modify m k f) = fst ` set m"
  by (force simp: modify_def split: if_splits)

lemma set_set_add: "set (set_add s x) = insert x (set s)"
  by (auto simp: set_add_def)


section \<open>Properties of the merger\<close>

lemma entry_versions_simps:
  "entry_versions \<lparr>versions = vs, sources = ss\<rparr> = fst ` set vs"
  "entry_versions (e\<lparr>versions := vs\<rparr>) = fst ` set vs"
  by (simp_all add: entry_versions_def)

lemma entry_version_sources_simps:
  "entry_version_sources \<lparr>versions = vs, sources = ss\<rparr> v
     = (case map_of vs v of None \<Rightarrow> {} | Some s \<Rightarrow> set s)"
  "entry_version_sources (e\<lparr>versions := vs\<rparr>) v
     = (case map_of vs v of None \<Rightarrow> {} | Some s \<Rightarrow> set s)"
  by (simp_all add: entry_version_sources_def)

lemma merge_sources_Nil: "merge_sources v [] e = e"
  by (simp add: merge_sources_def)

lemma merge_sources_Cons:
  "merge_sources v (s # srcs) e =
     merge_sources v srcs \<lparr>versions = modify (versions e) v (\<lambda>x. set_add x s),
                            sources = set_add (sources e) s\<rparr>"
  by (simp add: merge_sources_def)

lemma merge_sources_versions: "entry_versions (merge_sources v srcs e) = entry_versions e"
  by (induction srcs arbitrary: e)
     (simp_all add: merge_sources_Nil merge_sources_Cons entry_versions_simps keys_modify,
      simp add: entry_versions_def)

lemma merge_sources_version_sources:
  "entry_version_sources (merge_sources v srcs e) v' =
     (if v' = v \<and> map_of (versions e) v \<noteq> None
      then entry_version_sources e v' \<union> set srcs else entry_version_sources e v')"
proof (induction srcs arbitrary: e)
  case Nil
  then show ?case by (simp add: merge_sources_Nil)
next
  case (Cons s srcs)
  show ?case
    unfolding merge_sources_Cons Cons.IH
    by (auto simp: entry_version_sources_def map_of_modify set_set_add split: option.splits)
qed

lemma merge_sources_sources: "set (sources (merge_sources v srcs e)) = set (sources e) \<union> set srcs"
  by (induction srcs arbitrary: e)
     (auto simp: merge_sources_Nil merge_sources_Cons set_set_add)

lemma merge_versions_Nil: "merge_versions [] e = e"
  by (simp add: merge_versions_def)

lemma merge_versions_Cons:
  "merge_versions ((v, srcs) # vs) e =
     merge_versions vs (merge_sources v srcs (e\<lparr>versions := ensure (versions e) v []\<rparr>))"
  by (simp add: merge_versions_def)

lemma merge_versions_versions:
  "entry_versions (merge_versions vs e) = entry_versions e \<union> fst ` set vs"
proof (induction vs arbitrary: e)
  case Nil
  then show ?case by (simp add: merge_versions_Nil)
next
  case (Cons p vs)
  obtain v srcs where p: "p = (v, srcs)" by (cases p)
  show ?case
    unfolding p merge_versions_Cons Cons.IH merge_sources_versions entry_versions_simps keys_ensure
    by (auto simp: entry_versions_def)
qed

lemma merge_versions_version_sources:
  "entry_version_sources (merge_versions vs e) v =
     entry_version_sources e v \<union> (\<Union>p\<in>set vs. if fst p = v then set (snd p) else {})"
proof (induction vs arbitrary: e)
  case Nil
  then show ?case by (simp add: merge_versions_Nil)
next
  case (Cons p vs)
  obtain v' srcs where p: "p = (v', srcs)" by (cases p)
  have "entry_version_sources (merge_sources v' srcs (e\<lparr>versions := ensure (versions e) v' []\<rparr>)) v
          = entry_version_sources e v \<union> (if v' = v then set srcs else {})"
    unfolding merge_sources_version_sources entry_version_sources_simps
    by (auto simp: map_of_ensure entry_version_sources_def split: option.splits)
  then show ?case
    by (simp add: p merge_versions_Cons Cons.IH Un_assoc)
qed

lemma merge_versions_sources:
  "set (sources (merge_versions vs e)) = set (sources e) \<union> (\<Union>p\<in>set vs. set (snd p))"
proof (induction vs arbitrary: e)
  case Nil
  then show ?case by (simp add: merge_versions_Nil)
next
  case (Cons p vs)
  obtain v' srcs where p: "p = (v', srcs)" by (cases p)
  show ?case
    by (simp add: p merge_versions_Cons Cons.IH merge_sources_sources Un_assoc)
qed

lemma merge_entry_names: "reg_names (merge_entry n pd acc) = insert n (reg_names acc)"
  by (simp add: merge_entry_def reg_names_def keys_modify keys_ensure)

lemma merge_entry_lookup:
  "map_of (merge_entry n pd acc) n' =
     (if n' = n
      then Some (merge_versions (versions pd)
                   (case map_of acc n of None \<Rightarrow> \<lparr>versions = [], sources = []\<rparr> | Some e \<Rightarrow> e))
      else map_of acc n')"
  by (auto simp: merge_entry_def map_of_modify map_of_ensure split: option.splits)

lemma merge_entry_versions:
  "reg_versions (merge_entry n pd acc) n' =
     reg_versions acc n' \<union> (if n = n' then fst ` set (versions pd) else {})"
  unfolding reg_versions_def merge_entry_lookup
  by (simp add: merge_versions_versions entry_versions_simps split: option.splits)

lemma merge_entry_version_sources:
  "reg_version_sources (merge_entry n pd acc) n' v =
     reg_version_sources acc n' v
       \<union> (if n = n' then (\<Union>q\<in>set (versions pd). if fst q = v then set (snd q) else {}) else {})"
  unfolding reg_version_sources_def merge_entry_lookup
  by (simp add: merge_versions_version_sources entry_version_sources_simps split: option.splits)

lemma merge_entry_sources:
  "reg_sources (merge_entry n pd acc) n' =
     reg_sources acc n'
       \<union> (if n = n' then (\<Union>q\<in>set (versions pd). set (snd q)) else {})"
  unfolding reg_sources_def merge_entry_lookup
  by (simp add: merge_versions_sources split: option.splits)


lemma merge_registry_Nil: "merge_registry [] acc = acc"
  by (simp add: merge_registry_def)

lemma merge_registry_Cons:
  "merge_registry ((n, pd) # sc) acc = merge_registry sc (merge_entry n pd acc)"
  by (simp add: merge_registry_def)

lemma merge_registry_names:
  "reg_names (merge_registry sc acc) = reg_names acc \<union> fst ` set sc"
proof (induction sc arbitrary: acc)
  case Nil
  then show ?case by (simp add: merge_registry_Nil)
next
  case (Cons p sc)
  show ?case
    by (cases p) (simp add: merge_registry_Cons Cons.IH merge_entry_names)
qed

lemma merge_registry_versions:
  "reg_versions (merge_registry sc acc) n =
     reg_versions acc n \<union> (\<Union>p\<in>set sc. if fst p = n then fst ` set (versions (snd p)) else {})"
proof (induction sc arbitrary: acc)
  case Nil
  then show ?case by (simp add: merge_registry_Nil)
next
  case (Cons p sc)
  show ?case
    by (cases p) (simp add: merge_registry_Cons Cons.IH merge_entry_versions Un_assoc)
qed

lemma merge_registry_version_sources:
  "reg_version_sources (merge_registry sc acc) n v =
     reg_version_sources acc n v
       \<union> (\<Union>p\<in>set sc. if fst p = n
                       then (\<Union>q\<in>set (versions (snd p)). if fst q = v then set (snd q) else {})
                       else {})"
proof (induction sc arbitrary: acc)
  case Nil
  then show ?case by (simp add: merge_registry_Nil)
next
  case (Cons p sc)
  show ?case
    by (cases p) (simp add: merge_registry_Cons Cons.IH merge_entry_version_sources Un_assoc)
qed

lemma merge_registry_sources:
  "reg_sources (merge_registry sc acc) n =
     reg_sources acc n
       \<union> (\<Union>p\<in>set sc. if fst p = n then (\<Union>q\<in>set (versions (snd p)). set (snd q)) else {})"
proof (induction sc arbitrary: acc)
  case Nil
  then show ?case by (simp add: merge_registry_Nil)
next
  case (Cons p sc)
  show ?case
    by (cases p) (simp add: merge_registry_Cons Cons.IH merge_entry_sources Un_assoc)
qed

lemma fold_merge_names:
  "reg_names (fold merge_registry ps acc) = reg_names acc \<union> (\<Union>sc\<in>set ps. fst ` set sc)"
  by (induction ps arbitrary: acc) (simp_all add: merge_registry_names Un_assoc)

lemma fold_merge_versions:
  "reg_versions (fold merge_registry ps acc) n =
     reg_versions acc n
       \<union> (\<Union>sc\<in>set ps. \<Union>p\<in>set sc. if fst p = n then fst ` set (versions (snd p)) else {})"
  by (induction ps arbitrary: acc) (simp_all add: merge_registry_versions Un_assoc)

lemma fold_merge_version_sources:
  "reg_version_sources (fold merge_registry ps acc) n v =
     reg_version_sources acc n v
       \<union> (\<Union>sc\<in>set ps. \<Union>p\<in>set sc. if fst p = n
                       then (\<Union>q\<in>set (versions (snd p)). if fst q = v then set (snd q) else {})
                       else {})"
  by (induction ps arbitrary: acc) (simp_all add: merge_registry_version_sources Un_assoc)

lemma fold_merge_sources:
  "reg_sources (fold merge_registry ps acc) n =
     reg_sources acc n
       \<union> (\<Union>sc\<in>set ps. \<Union>p\<in>set sc.
            if fst p = n then (\<Union>q\<in>set (versions (snd p)). set (snd q)) else {})"
  by (induction ps arbitrary: acc) (simp_all add: merge_registry_sources Un_assoc)

lemma fetch_all_fold:
  "fold fetch_step srcs acc = fold merge_registry (partial_registries srcs) acc"
proof (induction srcs arbitrary: acc)
  case Nil
  then show ?case by (simp add: partial_registries_def map_filter_simps)
next
  case (Cons x srcs)
  obtain sourceName res where x: "x = (sourceName, res)" by (cases x)
  show ?case
    using Cons.IH
    by (simp add: x fetch_step_def partial_registries_def map_filter_simps
          split: fetched.splits sum.splits)
qed

lemma pkgA_merged:
  "fold merge_registry [pkgA_from ''feedA'', pkgA_from ''feedB''] []
     = [(JStr ''pkgA'', \<lparr>versions = [(JStr ''1.0.0'', [''feedA'', ''feedB''])],
                          sources = [''feedA'', ''feedB'']\<rparr>)]"
  by (simp add: pkgA_from_def merge_registry_def merge_entry_def merge_versions_def
        merge_sources_def ensure_def modify_def map_has_def set_add_def)

lemma pkgA_parsed: "parseCompromisedList (FeedText ''pkgA@1.0.0'') feedName = Inr (pkgA_from feedName)"
  by (simp add: pkgA_from_def parse_text_line_def trim_def is_ws_def startsWith_def
        match_line_def is_sep_def is_line_terminator_def add_record_def ensure_def modify_def
        map_has_def set_add_def)


section \<open>Properties of the normalizer\<close>

lemma filter_nonempty_cases:
  "filter (\<lambda>p. p \<noteq> []) xs = a # b # rest \<Longrightarrow> a \<noteq> [] \<and> b \<noteq> []"
  by (metis (mono_tags, lifting) filter_eq_ConsD)

lemma parse_text_line_record:
  "parse_text_line sourceName line acc =
     (case line_record (trim line) of
        None \<Rightarrow> acc
      | Some (nm, ver) \<Rightarrow> add_record acc (JStr nm) (JStr ver) sourceName)"
proof (cases "cells (trim line)")
  case Nil
  then show ?thesis
    by (simp add: parse_text_line_def line_record_def cells_def Let_def split: option.splits)
next
  case (Cons a as)
  show ?thesis
  proof (cases as)
    case Nil
    with Cons show ?thesis
      by (simp add: parse_text_line_def line_record_def cells_def Let_def split: option.splits)
  next
    case (Cons b rest)
    with \<open>cells (trim line) = a # as\<close> have c: "cells (trim line) = a # b # rest"
      by simp
    then have "a \<noteq> [] \<and> b \<noteq> []"
      unfolding cells_def by (rule filter_nonempty_cases)
    with c show ?thesis
      by (auto simp: parse_text_line_def line_record_def cells_def Let_def split: option.splits)
  qed
qed

lemma fold_parse_text_line:
  "fold (parse_text_line sourceName) ls acc =
     fold (\<lambda>(nm, ver) c. add_record c (JStr nm) (JStr ver) sourceName)
          (List.map_filter (\<lambda>line. line_record (trim line)) ls) acc"
proof (induction ls arbitrary: acc)
  case Nil
  then show ?case by (simp add: map_filter_simps)
next
  case (Cons l ls)
  have "fold (parse_text_line sourceName) (l # ls) acc
          = fold (\<lambda>(nm, ver) c. add_record c (JStr nm) (JStr ver) sourceName)
              (List.map_filter (\<lambda>line. line_record (trim line)) ls)
              (parse_text_line sourceName l acc)"
    by (simp add: Cons.IH)
  also have "\<dots> = fold (\<lambda>(nm, ver) c. add_record c (JStr nm) (JStr ver) sourceName)
              (List.map_filter (\<lambda>line. line_record (trim line)) (l # ls)) acc"
    unfolding parse_text_line_record [of sourceName l acc]
    by (simp add: map_filter_simps split: option.splits)
  finally show ?case .
qed

lemma split_on_no_sep: "sep \<notin> set xs \<Longrightarrow> split_on sep xs = [xs]"
  by (induction xs) auto

lemma split_on_append:
  "sep \<notin> set xs \<Longrightarrow> split_on sep (xs @ sep # ys) = xs # split_on sep ys"
  by (induction xs) auto

lemma split_on_hd: "\<exists>rest. split_on sep ys = takeWhile (\<lambda>c. c \<noteq> sep) ys # rest"
  by (induction ys) (auto split: list.splits)

lemma takeWhile_all: "list_all P xs \<Longrightarrow> takeWhile P (xs @ ys) = xs @ takeWhile P ys"
  by (induction xs) auto

lemma dropWhile_all: "list_all P xs \<Longrightarrow> dropWhile P (xs @ ys) = dropWhile P ys"
  by (induction xs) auto

lemma trim_Nil_iff: "trim s = [] \<longleftrightarrow> (\<forall>c\<in>set s. is_ws c)"
proof
  assume "\<forall>c\<in>set s. is_ws c"
  then have d: "dropWhile is_ws s = []" by simp
  show "trim s = []" unfolding trim_def d by simp
next
  assume t: "trim s = []"
  let ?d = "dropWhile is_ws s"
  have "?d = []"
  proof (rule ccontr)
    assume n: "?d \<noteq> []"
    then have "\<not> is_ws (hd ?d)" by (rule hd_dropWhile)
    moreover have "hd ?d \<in> set (rev ?d)" using n by simp
    ultimately have "dropWhile is_ws (rev ?d) \<noteq> []"
      unfolding dropWhile_eq_Nil_conv by blast
    then show False using t by (simp add: trim_def)
  qed
  then show "\<forall>c\<in>set s. is_ws c" by (simp only: dropWhile_eq_Nil_conv)
qed

lemma trim_hd: assumes "trim s \<noteq> []" shows "\<not> is_ws (hd (trim s))"
proof -
  let ?d = "dropWhile is_ws s"
  have d: "?d \<noteq> []" using assms unfolding trim_Nil_iff dropWhile_eq_Nil_conv by simp
  have "prefix (rev (dropWhile is_ws (rev ?d))) (rev (rev ?d))"
    using suffix_dropWhile [of is_ws "rev ?d"] by (simp only: suffix_to_prefix)
  then have "prefix (trim s) ?d"
    by (simp add: trim_def)
  then obtain zs where "?d = trim s @ zs" by (auto simp: prefix_def)
  then have "hd ?d = hd (trim s @ zs)" by simp
  also have "\<dots> = hd (trim s)" using assms by simp
  finally have "hd (trim s) = hd ?d" by simp
  moreover have "\<not> is_ws (hd ?d)" using d by (rule hd_dropWhile)
  ultimately show ?thesis by simp
qed

lemma trim_last: assumes "trim s \<noteq> []" shows "\<not> is_ws (last (trim s))"
proof -
  let ?z = "dropWhile is_ws (rev (dropWhile is_ws s))"
  have z: "?z \<noteq> []" using assms by (simp add: trim_def)
  then have "\<not> is_ws (hd ?z)" by (rule hd_dropWhile)
  moreover have "last (trim s) = hd ?z" using z by (simp add: trim_def last_rev)
  ultimately show ?thesis by simp
qed

lemma match_line_SomeD:
  assumes "match_line l = Some (nm, ver)"
  shows "\<exists>sep. l = nm @ sep # ver \<and> is_sep sep \<and> nm \<noteq> [] \<and> ver \<noteq> []"
proof -
  let ?P = "\<lambda>c. \<not> is_sep c"
  from assms obtain sep where r: "dropWhile ?P l = sep # ver" and n: "nm = takeWhile ?P l"
    and ne: "nm \<noteq> []" "ver \<noteq> []"
    by (auto simp: match_line_def Let_def split: if_splits list.splits)
  have "l = takeWhile ?P l @ dropWhile ?P l" by simp
  then have "l = nm @ sep # ver" using r n by simp
  moreover have "is_sep sep"
    using hd_dropWhile [of ?P l] r by simp
  ultimately show ?thesis using ne by blast
qed

lemma line_record_nonempty:
  assumes "line_record (trim l) = Some (nm, ver)"
  shows "nm \<noteq> [] \<and> ver \<noteq> []"
proof (cases "CHR ''|'' \<in> set (trim l)")
  case True
  with assms obtain rest where "cells (trim l) = nm # ver # rest"
    by (auto simp: line_record_def split: if_splits list.splits)
  then show ?thesis
    unfolding cells_def by (rule filter_nonempty_cases)
next
  case False
  with assms obtain n0 v0 where m: "match_line (trim l) = Some (n0, v0)"
    and nv: "nm = trim n0" "ver = trim v0" and ne: "trim l \<noteq> []"
    by (auto simp: line_record_def split: if_splits)
  from match_line_SomeD [OF m] obtain sep where
    l: "trim l = n0 @ sep # v0" and n0: "n0 \<noteq> []" and v0: "v0 \<noteq> []"
    by blast
  have "hd (trim l) = hd n0" "last (trim l) = last v0"
    using l n0 v0 by simp_all
  then have "\<not> is_ws (hd n0)" "\<not> is_ws (last v0)"
    using trim_hd [OF ne] trim_last [OF ne] by simp_all
  moreover have "hd n0 \<in> set n0" "last v0 \<in> set v0"
    using n0 v0 by simp_all
  ultimately have "trim n0 \<noteq> []" "trim v0 \<noteq> []"
    unfolding trim_Nil_iff by blast+
  then show ?thesis using nv by simp
qed

text \<open>
  The text branch never records an empty name or an empty version.
\<close>

lemma text_records_nonempty:
  "(nm, ver) \<in> set (text_records data) \<longrightarrow> nm \<noteq> [] \<and> ver \<noteq> []"
proof
  assume "(nm, ver) \<in> set (text_records data)"
  then obtain l where "line_record (trim l) = Some (nm, ver)"
    by (auto simp: text_records_def List.map_filter_def)
  then show "nm \<noteq> [] \<and> ver \<noteq> []"
    by (rule line_record_nonempty)
qed

text \<open>
  A line without pipe that starts with \<^verbatim>\<open>@\<close>, the marker of a namespace, adds nothing: the
  pattern needs a first character that is no separator.
\<close>

lemma scoped_text_line_skipped:
  "startsWith (trim line) ''@'' \<and> CHR ''|'' \<notin> set (trim line)
     \<longrightarrow> parse_text_line sourceName line acc = acc"
proof
  assume a: "startsWith (trim line) ''@'' \<and> CHR ''|'' \<notin> set (trim line)"
  then obtain rest where t: "trim line = CHR ''@'' # rest"
    by (cases "trim line") (auto simp: startsWith_def)
  have "match_line (trim line) = None"
    by (simp add: t match_line_def is_sep_def)
  with a t show "parse_text_line sourceName line acc = acc"
    by (simp add: parse_text_line_def startsWith_def)
qed

text \<open>What adding a record does to the registry.\<close>

lemma add_record_merge_entry:
  "add_record acc n v s = merge_entry n \<lparr>versions = [(v, [s])], sources = []\<rparr> acc"
proof -
  have "merge_versions [(v, [s])]
          = (\<lambda>pkg. \<lparr>versions = modify (ensure (versions pkg) v []) v (\<lambda>x. set_add x s),
                     sources = set_add (sources pkg) s\<rparr>)"
    by (rule ext) (simp add: merge_versions_def merge_sources_def)
  then show ?thesis
    by (simp add: add_record_def merge_entry_def)
qed

lemma add_record_names: "reg_names (add_record acc n v s) = insert n (reg_names acc)"
  by (simp add: add_record_merge_entry merge_entry_names)

lemma add_record_versions:
  "reg_versions (add_record acc n v s) n' = reg_versions acc n' \<union> (if n = n' then {v} else {})"
  by (simp add: add_record_merge_entry merge_entry_versions)

lemma add_record_version_sources:
  "reg_version_sources (add_record acc n v s) n' v' =
     reg_version_sources acc n' v' \<union> (if n = n' \<and> v = v' then {s} else {})"
  by (simp add: add_record_merge_entry merge_entry_version_sources)

lemma add_record_sources:
  "reg_sources (add_record acc n v s) n' = reg_sources acc n' \<union> (if n = n' then {s} else {})"
  by (simp add: add_record_merge_entry merge_entry_sources)

lemma fold_add_record_names:
  "reg_names (fold (\<lambda>(nm, ver) c. add_record c (JStr nm) (JStr ver) s) recs acc)
     = reg_names acc \<union> (\<lambda>(nm, ver). JStr nm) ` set recs"
proof (induction recs arbitrary: acc)
  case Nil
  then show ?case by simp
next
  case (Cons r recs)
  show ?case
    by (cases r) (simp add: Cons.IH add_record_names)
qed

lemma fold_add_record_version_sources:
  "reg_version_sources (fold (\<lambda>(nm, ver) c. add_record c (JStr nm) (JStr ver) s) recs acc)
       (JStr n) (JStr v)
     = reg_version_sources acc (JStr n) (JStr v) \<union> (if (n, v) \<in> set recs then {s} else {})"
proof (induction recs arbitrary: acc)
  case Nil
  then show ?case by simp
next
  case (Cons r recs)
  show ?case
    by (cases r) (auto simp: Cons.IH add_record_version_sources)
qed

lemma empty_registry_views:
  "reg_names [] = {}" "reg_version_sources [] n v = {}"
  by (simp_all add: reg_names_def reg_version_sources_def)

lemma map_filter_all_None: "list_all (\<lambda>x. f x = None) xs \<Longrightarrow> List.map_filter f xs = []"
  by (induction xs) (simp_all add: map_filter_simps)

text \<open>An inert line holds no record.\<close>

lemma inert_line_record: assumes "inert_line line" shows "line_record (trim line) = None"
proof (cases "trim line = [] \<or> startsWith (trim line) ''#'' \<or> startsWith (trim line) ''|''")
  case True
  then show ?thesis by (auto simp: line_record_def)
next
  case False
  with assms have a: "list_all (\<lambda>c. c \<noteq> CHR ''|'' \<and> \<not> is_sep c) (trim line)"
    by (auto simp: inert_line_def)
  then have np: "CHR ''|'' \<notin> set (trim line)"
    by (auto simp: list_all_iff)
  from a have "\<forall>c\<in>set (trim line). \<not> is_sep c"
    by (auto simp: list_all_iff)
  then have dw: "dropWhile (\<lambda>c. \<not> is_sep c) (trim line) = []"
    by simp
  have "match_line (trim line) = None"
    by (simp add: match_line_def Let_def dw)
  then show ?thesis
    using np by (simp add: line_record_def)
qed

lemma inert_text_records:
  assumes "list_all inert_line (split_on (CHR 0x0A) data)"
  shows "text_records data = []"
proof -
  have "list_all (\<lambda>line. line_record (trim line) = None) (split_on (CHR 0x0A) data)"
    using assms by (auto simp: list_all_iff inert_line_record)
  then show ?thesis
    unfolding text_records_def by (rule map_filter_all_None)
qed

lemma fetch_step_skip:
  assumes "unrecognized (parsed_value data json)
             \<or> parseCompromisedList (parsed_value data json) sourceName = Inl TypeError"
  shows "fetch_step (sourceName, Fetched data json) acc = acc"
proof (cases "parsed_value data json")
  case (FeedText body)
  with assms have "text_records body = []"
    by (simp add: inert_text_records)
  then have "parseCompromisedList (parsed_value data json) sourceName = Inr []"
    by (simp add: FeedText fold_parse_text_line text_records_def)
  then show ?thesis
    by (simp add: fetch_step_def merge_registry_Nil)
next
  case FeedNull
  then show ?thesis by (simp add: fetch_step_def)
next
  case (FeedPackages x3)
  with assms show ?thesis by (simp add: fetch_step_def)
next
  case (FeedArray x4)
  with assms show ?thesis by (simp add: fetch_step_def)
next
  case FeedOther
  then show ?thesis by (simp add: fetch_step_def merge_registry_Nil)
qed

lemma sample_text_records:
  "text_records sample_text_feed = [(''bar'', ''2.0.0''), (''baz'', ''3.0'')]"
  by (simp add: sample_text_feed_def text_records_def line_record_def cells_def trim_def
        is_ws_def startsWith_def match_line_def is_sep_def is_line_terminator_def
        map_filter_simps)


section \<open>Claims about the merger\<close>

text \<open>
  C4.  The registry merger is order-independent: folding the merge step of
  \<open>fetchAllCompromisedPackages\<close> over two sequences of partial registries that are
  permutations of each other yields registries with the same identifiers, the same
  versions per identifier, the same source set per version and the same source set per
  identifier (the insertion order inside the Maps and Sets follows the feeds and is no
  part of the claim).  \<open>fetchAllCompromisedPackages\<close> is that fold over the partial
  registries of its feeds.  In particular, two partial registries that each report
  \<open>pkgA\<close> at 1.0.0, from the feeds \<open>feedA\<close> and \<open>feedB\<close>, merge into one entry whose version
  1.0.0 has a source set of size 2.
\<close>

theorem merge_order_independent:
  assumes "mset ps = mset qs"
  shows "reg_names (fold merge_registry ps acc) = reg_names (fold merge_registry qs acc)
       \<and> reg_versions (fold merge_registry ps acc) n = reg_versions (fold merge_registry qs acc) n
       \<and> reg_version_sources (fold merge_registry ps acc) n v
           = reg_version_sources (fold merge_registry qs acc) n v
       \<and> reg_sources (fold merge_registry ps acc) n = reg_sources (fold merge_registry qs acc) n
       \<and> fetchAllCompromisedPackages srcs = fold merge_registry (partial_registries srcs) []
       \<and> parseCompromisedList (FeedText ''pkgA@1.0.0'') feedName = Inr (pkgA_from feedName)
       \<and> fold merge_registry [pkgA_from ''feedA'', pkgA_from ''feedB''] []
           = [(JStr ''pkgA'', \<lparr>versions = [(JStr ''1.0.0'', [''feedA'', ''feedB''])],
                                sources = [''feedA'', ''feedB'']\<rparr>)]
       \<and> card (reg_version_sources
                 (fold merge_registry [pkgA_from ''feedA'', pkgA_from ''feedB''] [])
                 (JStr ''pkgA'') (JStr ''1.0.0'')) = 2"
proof -
  have "set ps = set qs"
    using assms by (rule mset_eq_setD)
  then have "reg_names (fold merge_registry ps acc) = reg_names (fold merge_registry qs acc)"
    and "reg_versions (fold merge_registry ps acc) n = reg_versions (fold merge_registry qs acc) n"
    and "reg_version_sources (fold merge_registry ps acc) n v
           = reg_version_sources (fold merge_registry qs acc) n v"
    and "reg_sources (fold merge_registry ps acc) n = reg_sources (fold merge_registry qs acc) n"
    by (simp_all add: fold_merge_names fold_merge_versions fold_merge_version_sources
          fold_merge_sources)
  moreover have "fetchAllCompromisedPackages srcs = fold merge_registry (partial_registries srcs) []"
    by (simp add: fetchAllCompromisedPackages_def fetch_all_fold)
  moreover have "card (reg_version_sources
                 (fold merge_registry [pkgA_from ''feedA'', pkgA_from ''feedB''] [])
                 (JStr ''pkgA'') (JStr ''1.0.0'')) = 2"
    unfolding pkgA_merged
    by (simp add: reg_version_sources_def entry_version_sources_def)
  ultimately show ?thesis
    using pkgA_merged pkgA_parsed by blast
qed

theorem merge_order_independent_witness:
  "mset [pkgA_from ''feedA'', pkgA_from ''feedB''] = mset [pkgA_from ''feedB'', pkgA_from ''feedA'']
   \<and> reg_version_sources (fold merge_registry [pkgA_from ''feedA'', pkgA_from ''feedB''] [])
        (JStr ''pkgA'') (JStr ''1.0.0'')
     = reg_version_sources (fold merge_registry [pkgA_from ''feedB'', pkgA_from ''feedA''] [])
        (JStr ''pkgA'') (JStr ''1.0.0'')
   \<and> reg_version_sources (fold merge_registry [pkgA_from ''feedB'', pkgA_from ''feedA''] [])
        (JStr ''pkgA'') (JStr ''1.0.0'') = {''feedA'', ''feedB''}"
proof -
  have h: "mset [pkgA_from ''feedA'', pkgA_from ''feedB'']
             = mset [pkgA_from ''feedB'', pkgA_from ''feedA'']"
    by simp
  have "reg_version_sources (fold merge_registry [pkgA_from ''feedA'', pkgA_from ''feedB''] [])
          (JStr ''pkgA'') (JStr ''1.0.0'') = {''feedA'', ''feedB''}"
    unfolding pkgA_merged
    by (simp add: reg_version_sources_def entry_version_sources_def)
  then show ?thesis
    using h merge_order_independent [OF h, of "[]" "JStr ''pkgA''" "JStr ''1.0.0''"]
    by simp
qed


section \<open>Claims about the normalizer\<close>

text \<open>
  C5, as the specification states it: the identifier parser splits on the last \<^verbatim>\<open>@\<close> that
  is not the leading namespace marker, and fails with MalformedIdentifier when there is
  no separator.  In the code, the pattern of the text lines does not match a string that
  starts with \<^verbatim>\<open>@\<close> and splits at the first separator; the split of the simple array format
  takes the pieces around the first \<^verbatim>\<open>@\<close>; and a string without separator raises nothing:
  the text line is skipped, the simple array format records it without version.
\<close>

theorem identifier_last_separator_counterexample:
  "claimed_identifier ''@scope/name@1.0.0'' = Inr (Some ''@scope'', ''name'', ''1.0.0'')
   \<and> match_line ''@scope/name@1.0.0'' = None
   \<and> split_name_version ''@scope/name@1.0.0'' = (JStr '''', JStr ''scope/name'')
   \<and> claimed_identifier ''pkg@1.0.0@beta'' = Inr (None, ''pkg@1.0.0'', ''beta'')
   \<and> match_line ''pkg@1.0.0@beta'' = Some (''pkg'', ''1.0.0@beta'')
   \<and> split_name_version ''pkg@1.0.0@beta'' = (JStr ''pkg'', JStr ''1.0.0'')
   \<and> claimed_identifier ''pkg'' = Inl MalformedIdentifier
   \<and> parse_text_line ''feedX'' ''pkg'' [] = []
   \<and> parse_simple_list [''pkg'']
       = [(''pkg'', \<lparr>l_name = JStr ''pkg'', l_version = JUndefined, severity = ''high'',
                     source = ''list''\<rparr>)]"
  by (simp add: claimed_identifier_def match_line_def split_name_version_def startsWith_def
        is_sep_def is_line_terminator_def parse_text_line_def parse_simple_list_def
        trim_def is_ws_def)

text \<open>
  C5, amended.  For a combined string of a name, a separator and a version, where the name
  is not empty and holds neither \<^verbatim>\<open>@\<close> nor \<^verbatim>\<open>:\<close>, the pattern of the text lines splits at
  the first separator (\<^verbatim>\<open>@\<close> or \<^verbatim>\<open>:\<close>) and gives the name and the version, provided the
  version is not empty and holds no line terminator; the split of the simple array format
  gives the name before the first \<^verbatim>\<open>@\<close> and, as version, the text up to the next \<^verbatim>\<open>@\<close>.
  No parser fails on a string without separator: the pattern does not match, and the
  simple array format yields the whole string as name with an undefined version.
\<close>

theorem identifier_split_at_first_separator:
  "(nm \<noteq> [] \<and> list_all (\<lambda>c. \<not> is_sep c) nm \<and> is_sep sep \<longrightarrow>
      match_line (nm @ sep # ver)
        = (if ver = [] \<or> list_ex is_line_terminator ver then None else Some (nm, ver)))
   \<and> (nm \<noteq> [] \<and> CHR ''@'' \<notin> set nm \<longrightarrow>
      split_name_version (nm @ CHR ''@'' # ver)
        = (JStr nm, JStr (takeWhile (\<lambda>c. c \<noteq> CHR ''@'') ver)))
   \<and> (list_all (\<lambda>c. \<not> is_sep c) s \<longrightarrow>
      match_line s = None \<and> split_name_version s = (JStr s, JUndefined))"
proof (intro conjI impI)
  assume a: "nm \<noteq> [] \<and> list_all (\<lambda>c. \<not> is_sep c) nm \<and> is_sep sep"
  then have "takeWhile (\<lambda>c. \<not> is_sep c) (nm @ sep # ver) = nm"
    and "dropWhile (\<lambda>c. \<not> is_sep c) (nm @ sep # ver) = sep # ver"
    by (simp_all add: takeWhile_all dropWhile_all)
  with a show "match_line (nm @ sep # ver)
        = (if ver = [] \<or> list_ex is_line_terminator ver then None else Some (nm, ver))"
    by (simp add: match_line_def)
next
  assume "nm \<noteq> [] \<and> CHR ''@'' \<notin> set nm"
  then have "CHR ''@'' \<notin> set nm" by simp
  moreover obtain rest where "split_on (CHR ''@'') ver = takeWhile (\<lambda>c. c \<noteq> CHR ''@'') ver # rest"
    using split_on_hd by blast
  ultimately show "split_name_version (nm @ CHR ''@'' # ver)
        = (JStr nm, JStr (takeWhile (\<lambda>c. c \<noteq> CHR ''@'') ver))"
    by (simp add: split_name_version_def split_on_append)
next
  assume a: "list_all (\<lambda>c. \<not> is_sep c) s"
  then have dw: "dropWhile (\<lambda>c. \<not> is_sep c) s = []"
    by (simp add: list_all_iff)
  show "match_line s = None"
    by (simp add: match_line_def Let_def dw)
  from a have "CHR ''@'' \<notin> set s"
    by (auto simp: list_all_iff is_sep_def)
  then show "split_name_version s = (JStr s, JUndefined)"
    by (simp add: split_name_version_def split_on_no_sep)
qed

theorem identifier_split_at_first_separator_witness:
  "match_line ''left-pad@1.3.0'' = Some (''left-pad'', ''1.3.0'')
   \<and> split_name_version ''left-pad@1.3.0'' = (JStr ''left-pad'', JStr ''1.3.0'')
   \<and> match_line ''left-pad'' = None
   \<and> split_name_version ''left-pad'' = (JStr ''left-pad'', JUndefined)"
proof -
  have h1: "''left-pad'' \<noteq> [] \<and> list_all (\<lambda>c. \<not> is_sep c) ''left-pad'' \<and> is_sep (CHR ''@'')"
    by (simp add: is_sep_def)
  have h2: "CHR ''@'' \<notin> set ''left-pad''"
    by simp
  have h3: "list_all (\<lambda>c. \<not> is_sep c) ''left-pad''"
    by (simp add: is_sep_def)
  show ?thesis
    using h1 h2 h3
      identifier_split_at_first_separator [of "''left-pad''" "CHR ''@''" "''1.3.0''" "''left-pad''"]
    by (simp add: is_line_terminator_def)
qed

text \<open>
  C6, as the specification states it: every line that is not blank and no comment and
  contains a pipe is read as a table row, and only a header row whose first cell reads
  \<open>Package\<close> is skipped.  The code skips a row that starts with a pipe, and a row whose
  second cell reads \<open>Version\<close>.
\<close>

theorem table_rows_counterexample:
  "claimed_line_record (trim ''| foo | 1.0.0 |'') = Some (''foo'', ''1.0.0'')
   \<and> parse_text_line ''feedX'' ''| foo | 1.0.0 |'' [] = []
   \<and> claimed_line_record (trim ''foo | Version'') = Some (''foo'', ''Version'')
   \<and> parse_text_line ''feedX'' ''foo | Version'' [] = []"
  by (simp add: claimed_line_record_def parse_text_line_def cells_def trim_def is_ws_def
        startsWith_def)

text \<open>
  C6, amended.  For every text feed, the normalizer trims each line and skips it when it is
  blank or starts with \<^verbatim>\<open>#\<close> or with \<^verbatim>\<open>|\<close>; another line that contains a pipe is split on
  \<^verbatim>\<open>|\<close>, each cell trimmed and the empty cells dropped, and when at least two cells remain
  the first two are name and version, unless the first reads \<open>Package\<close> or the second reads
  \<open>Version\<close>; a line without pipe is parsed by the pattern of a name, a separator (\<^verbatim>\<open>:\<close> or
  \<^verbatim>\<open>@\<close>) and a version, both trimmed.  The registry of the feed is the result of adding
  these records, in the order of the lines, under the feed's name: it lists the names of
  the records and no other, and the source set of a version of a name is the feed's name
  when the pair is a record, and empty otherwise.
\<close>

theorem text_feed_records:
  "parse_text_line sourceName line acc =
     (case line_record (trim line) of
        None \<Rightarrow> acc
      | Some (nm, ver) \<Rightarrow> add_record acc (JStr nm) (JStr ver) sourceName)
   \<and> (\<exists>reg. parseCompromisedList (FeedText data) sourceName = Inr reg
        \<and> reg = fold (\<lambda>(nm, ver) c. add_record c (JStr nm) (JStr ver) sourceName)
                  (text_records data) []
        \<and> reg_names reg = (\<lambda>(nm, ver). JStr nm) ` set (text_records data)
        \<and> (\<forall>n v. reg_version_sources reg (JStr n) (JStr v)
                    = (if (n, v) \<in> set (text_records data) then {sourceName} else {})))"
proof (intro conjI)
  show "parse_text_line sourceName line acc =
     (case line_record (trim line) of
        None \<Rightarrow> acc
      | Some (nm, ver) \<Rightarrow> add_record acc (JStr nm) (JStr ver) sourceName)"
    by (rule parse_text_line_record)
  let ?reg = "fold (\<lambda>(nm, ver) c. add_record c (JStr nm) (JStr ver) sourceName)
                (text_records data) []"
  have "parseCompromisedList (FeedText data) sourceName = Inr ?reg"
    by (simp add: fold_parse_text_line text_records_def)
  moreover have "reg_names ?reg = (\<lambda>(nm, ver). JStr nm) ` set (text_records data)"
    by (simp add: fold_add_record_names empty_registry_views)
  moreover have "\<forall>n v. reg_version_sources ?reg (JStr n) (JStr v)
                    = (if (n, v) \<in> set (text_records data) then {sourceName} else {})"
    by (simp add: fold_add_record_version_sources empty_registry_views)
  ultimately show "\<exists>reg. parseCompromisedList (FeedText data) sourceName = Inr reg
        \<and> reg = ?reg
        \<and> reg_names reg = (\<lambda>(nm, ver). JStr nm) ` set (text_records data)
        \<and> (\<forall>n v. reg_version_sources reg (JStr n) (JStr v)
                    = (if (n, v) \<in> set (text_records data) then {sourceName} else {}))"
    by blast
qed

theorem text_feed_records_witness:
  "text_records sample_text_feed = [(''bar'', ''2.0.0''), (''baz'', ''3.0'')]
   \<and> parseCompromisedList (FeedText sample_text_feed) ''feedX''
     = Inr [(JStr ''bar'', \<lparr>versions = [(JStr ''2.0.0'', [''feedX''])], sources = [''feedX'']\<rparr>),
            (JStr ''baz'', \<lparr>versions = [(JStr ''3.0'', [''feedX''])], sources = [''feedX'']\<rparr>)]"
  using text_feed_records [of "''feedX''" "[]" "[]" sample_text_feed]
  by (simp add: sample_text_records add_record_def ensure_def modify_def map_has_def
        set_add_def)

text \<open>
  C7, as the specification states it: a feed document that is unparsable JSON contributes
  no entry.  The code hands a document that \<^verbatim>\<open>JSON.parse\<close> rejects to the normalizer as text
  (lines 461 to 465), and the pattern of the text lines finds a name before the first
  colon and a version after it.
\<close>

theorem unparsable_json_counterexample:
  \<open>fetchAllCompromisedPackages [(''feedX'', Fetched malformed_json_feed None)]
     = [(JStr ''{"packages"'',
         \<lparr>versions = [(JStr ''[{"name": "foo"},]}'', [''feedX''])], sources = [''feedX'']\<rparr>)]
   \<and> fetchAllCompromisedPackages [(''feedX'', Fetched malformed_json_feed None)] \<noteq> []\<close>
  by (simp add: fetchAllCompromisedPackages_def fetch_step_def parsed_value_def
        malformed_json_feed_def parse_text_line_def trim_def is_ws_def startsWith_def
        match_line_def is_sep_def is_line_terminator_def add_record_def ensure_def modify_def
        map_has_def set_add_def merge_registry_def merge_entry_def merge_versions_def
        merge_sources_def)

text \<open>
  C7, amended.  A feed whose fetch fails, a feed on which the normalizer throws (\<^verbatim>\<open>null\<close>, or an
  array with a \<^verbatim>\<open>null\<close> element), and a feed that is unrecognized: \<^verbatim>\<open>null\<close>, a value that is
  neither text nor an array nor an object with an array under \<^verbatim>\<open>packages\<close>, or text, the
  empty text included, of which every line is blank, starts with \<^verbatim>\<open>#\<close> or with \<^verbatim>\<open>|\<close>, or
  contains none of \<^verbatim>\<open>|\<close>, \<^verbatim>\<open>:\<close> and \<^verbatim>\<open>@\<close>, contributes no entry to the merged registry and does
  not stop the loop: the result of \<open>fetchAllCompromisedPackages\<close> is the one of the run
  without that feed.  A document that \<^verbatim>\<open>JSON.parse\<close> rejects is read as text and contributes
  the records of its lines.
\<close>

theorem inert_feed_contributes_nothing:
  "(unrecognized (parsed_value data json)
      \<or> parseCompromisedList (parsed_value data json) sourceName = Inl TypeError
      \<longrightarrow> fetchAllCompromisedPackages (before @ (sourceName, Fetched data json) # after)
            = fetchAllCompromisedPackages (before @ after))
   \<and> fetchAllCompromisedPackages (before @ (sourceName, FetchFailed) # after)
     = fetchAllCompromisedPackages (before @ after)
   \<and> fetch_step (sourceName, Fetched data None) acc
     = merge_registry
         (fold (\<lambda>(nm, ver) c. add_record c (JStr nm) (JStr ver) sourceName) (text_records data) [])
         acc"
proof (intro conjI impI)
  assume "unrecognized (parsed_value data json)
      \<or> parseCompromisedList (parsed_value data json) sourceName = Inl TypeError"
  then have "fetch_step (sourceName, Fetched data json) acc = acc" for acc
    by (rule fetch_step_skip)
  then show "fetchAllCompromisedPackages (before @ (sourceName, Fetched data json) # after)
            = fetchAllCompromisedPackages (before @ after)"
    by (simp add: fetchAllCompromisedPackages_def)
next
  show "fetchAllCompromisedPackages (before @ (sourceName, FetchFailed) # after)
     = fetchAllCompromisedPackages (before @ after)"
    by (simp add: fetchAllCompromisedPackages_def fetch_step_def)
next
  show "fetch_step (sourceName, Fetched data None) acc
     = merge_registry
         (fold (\<lambda>(nm, ver) c. add_record c (JStr nm) (JStr ver) sourceName) (text_records data) [])
         acc"
    by (simp add: fetch_step_def parsed_value_def fold_parse_text_line text_records_def)
qed

theorem inert_feed_contributes_nothing_witness:
  "unrecognized (parsed_value (''# none'' @ [CHR 0x0A] @ ''nothing here'') None)
   \<and> parseCompromisedList (parsed_value ''null'' (Some FeedNull)) ''null'' = Inl TypeError
   \<and> fetchAllCompromisedPackages
        [(''feedA'', Fetched ''pkgA@1.0.0'' None),
         (''prose'', Fetched (''# none'' @ [CHR 0x0A] @ ''nothing here'') None),
         (''null'', Fetched ''null'' (Some FeedNull)),
         (''feedB'', Fetched ''pkgA@1.0.0'' None)]
     = [(JStr ''pkgA'', \<lparr>versions = [(JStr ''1.0.0'', [''feedA'', ''feedB''])],
                          sources = [''feedA'', ''feedB'']\<rparr>)]"
proof -
  let ?prose = "''# none'' @ [CHR 0x0A] @ ''nothing here''"
  have h1: "unrecognized (parsed_value ?prose None)
              \<or> parseCompromisedList (parsed_value ?prose None) ''prose'' = Inl TypeError"
    by (simp add: parsed_value_def inert_line_def trim_def is_ws_def startsWith_def is_sep_def)
  have h2: "unrecognized (parsed_value ''null'' (Some FeedNull))
              \<or> parseCompromisedList (parsed_value ''null'' (Some FeedNull)) ''null''
                  = Inl TypeError"
    by (simp add: parsed_value_def)
  have "fetchAllCompromisedPackages
          [(''feedA'', Fetched ''pkgA@1.0.0'' None), (''prose'', Fetched ?prose None),
           (''null'', Fetched ''null'' (Some FeedNull)), (''feedB'', Fetched ''pkgA@1.0.0'' None)]
        = fetchAllCompromisedPackages
          [(''feedA'', Fetched ''pkgA@1.0.0'' None), (''feedB'', Fetched ''pkgA@1.0.0'' None)]"
    using h1 h2
      inert_feed_contributes_nothing [of ?prose None "''prose''"
         "[(''feedA'', Fetched ''pkgA@1.0.0'' None)]"
         "[(''null'', Fetched ''null'' (Some FeedNull)), (''feedB'', Fetched ''pkgA@1.0.0'' None)]"
         "[]"]
      inert_feed_contributes_nothing [of "''null''" "Some FeedNull" "''null''"
         "[(''feedA'', Fetched ''pkgA@1.0.0'' None)]"
         "[(''feedB'', Fetched ''pkgA@1.0.0'' None)]" "[]"]
    by simp
  moreover have "fetchAllCompromisedPackages
          [(''feedA'', Fetched ''pkgA@1.0.0'' None), (''feedB'', Fetched ''pkgA@1.0.0'' None)]
        = fold merge_registry [pkgA_from ''feedA'', pkgA_from ''feedB''] []"
    by (simp add: fetchAllCompromisedPackages_def fetch_step_def parsed_value_def pkgA_parsed
          del: parseCompromisedList.simps)
  ultimately have "fetchAllCompromisedPackages
          [(''feedA'', Fetched ''pkgA@1.0.0'' None), (''prose'', Fetched ?prose None),
           (''null'', Fetched ''null'' (Some FeedNull)), (''feedB'', Fetched ''pkgA@1.0.0'' None)]
        = fold merge_registry [pkgA_from ''feedA'', pkgA_from ''feedB''] []"
    by (rule trans)
  moreover have "unrecognized (parsed_value ?prose None)"
    by (simp add: parsed_value_def inert_line_def trim_def is_ws_def startsWith_def is_sep_def)
  moreover have "parseCompromisedList (parsed_value ''null'' (Some FeedNull)) ''null''
                   = Inl TypeError"
    by (simp add: parsed_value_def)
  ultimately show ?thesis
    by (simp only: pkgA_merged simp_thms)
qed


text \<open>
  C8.  The specification: a feed record without version, or with an empty name, is dropped.
  The text branch does so; the two JSON branches check nothing.  A record without version
  creates an entry whose versions map has the key \<^verbatim>\<open>undefined\<close>, an empty name (with no
  \<^verbatim>\<open>name\<close> to fall back on) creates an entry under the key \<^verbatim>\<open>undefined\<close>, and an installed
  package whose manifest has no version is then reported as compromised.
\<close>

theorem versionless_feed_record_kept:
  "parseCompromisedList (FeedPackages [RecObj [(''name'', JStr ''foo'')]]) ''feedX''
     = Inr [(JStr ''foo'', \<lparr>versions = [(JUndefined, [''feedX''])], sources = [''feedX'']\<rparr>)]
   \<and> parseCompromisedList
       (FeedArray [RecObj [(''package'', JStr ''''), (''version'', JStr ''1.0.0'')]]) ''feedX''
     = Inr [(JUndefined, \<lparr>versions = [(JStr ''1.0.0'', [''feedX''])], sources = [''feedX'']\<rparr>)]
   \<and> compromised (scanAllPackages slash_join versionless_project ''root''
        [(JStr ''foo'', \<lparr>versions = [(JUndefined, [''feedX''])], sources = [''feedX'']\<rparr>)])
     = [\<lparr>c_name = ''foo'', c_installedVersion = JUndefined,
         c_compromisedVersions = [JUndefined], c_sources = [''feedX''],
         c_allSources = [''feedX''], c_path = ''root/node_modules/foo''\<rparr>]"
  by (simp add: add_record_def ensure_def modify_def map_has_def set_add_def getProp_def
        js_or_def scanAllPackages_def versionless_installed classify_def map_get_def)

end
